theory Spec2Isabelle
  imports Complex_Main
begin

section \<open>Errors raised by the driver module\<close>

text \<open>
  The functions below embed \<^verbatim>\<open>netket_qsr/driver/qsr.py\<close>; each keeps the name of its source
  function without the leading underscore, and \<open>qsr_init\<close> is \<^verbatim>\<open>QSR.__init__\<close>. Every
  exception that the module can raise on the paths modelled is a value of \<open>error\<close>; a
  function that may raise returns \<open>error + 'a\<close> with \<open>Inl\<close> for the exception.
\<close>

datatype error =
    ValueError
  | TypeError
  | AssertionError
  | IndexError
  | AttributeError
  | ZeroDivisionError

section \<open>NumPy indexing and slicing on one axis\<close>

text \<open>
  A one-dimensional array is a list; a two-dimensional array is the list of its rows.
  Offsets and lengths are Python/NumPy integers (\<^verbatim>\<open>np.intp\<close>), modelled as \<open>int\<close>.
  A slice bound is clipped to the array, a negative bound counts from the end.
\<close>

definition slice_bound :: "nat \<Rightarrow> int \<Rightarrow> nat" where
  "slice_bound n i = (if i < 0 then nat (max 0 (int n + i)) else min (nat i) n)"

definition py_slice :: "'a list \<Rightarrow> int \<Rightarrow> int \<Rightarrow> 'a list" where
  "py_slice xs a b =
     (let s = slice_bound (length xs) a; e = slice_bound (length xs) b
      in take (e - s) (drop s xs))"

text \<open>
  \<^verbatim>\<open>xs[a:b] = ys\<close>: the shapes must agree, except that a one-element right-hand side is
  broadcast; otherwise the assignment raises.
\<close>

definition py_set_slice :: "'a list \<Rightarrow> int \<Rightarrow> int \<Rightarrow> 'a list \<Rightarrow> error + 'a list" where
  "py_set_slice xs a b ys =
     (let s = slice_bound (length xs) a; e = slice_bound (length xs) b; l = e - s
      in if length ys = l then Inr (take s xs @ ys @ drop (s + l) xs)
         else if length ys = 1 then Inr (take s xs @ replicate l (hd ys) @ drop (s + l) xs)
         else Inl ValueError)"

text \<open>\<^verbatim>\<open>xs[a:] = c\<close> with a scalar \<open>c\<close>.\<close>

definition py_fill_from :: "'a list \<Rightarrow> int \<Rightarrow> 'a \<Rightarrow> 'a list" where
  "py_fill_from xs a c =
     (let s = slice_bound (length xs) a in take s xs @ replicate (length xs - s) c)"

text \<open>
  \<^verbatim>\<open>xs[i]\<close>: a negative index counts from the end. Numba does not check bounds; the model
  stops with \<open>IndexError\<close> where NumPy would raise.
\<close>

definition py_get :: "'a list \<Rightarrow> int \<Rightarrow> error + 'a" where
  "py_get xs i =
     (if 0 \<le> i \<and> i < int (length xs) then Inr (xs ! nat i)
      else if i < 0 \<and> - int (length xs) \<le> i then Inr (xs ! nat (int (length xs) + i))
      else Inl IndexError)"

text \<open>\<^verbatim>\<open>ndarray.resize\<close> in place along the first axis: new entries are zero-filled.\<close>

definition resize :: "'a list \<Rightarrow> int \<Rightarrow> 'a \<Rightarrow> 'a list" where
  "resize xs n z = take (nat n) xs @ replicate (nat n - length xs) z"

section \<open>Basis rotations\<close>

text \<open>
  A NetKet \<^verbatim>\<open>LocalOperator\<close> built by \<^verbatim>\<open>_build_rotation\<close> is the product, in
  multiplication order, of single-site factors \<open>(U, j)\<close>; the constant operator
  \<^verbatim>\<open>LocalOperator(hi, constant=1.0)\<close> is the empty product.
\<close>

datatype site_rot = U_X | U_Y

type_synonym local_operator = "(site_rot \<times> nat) list"

fun build_rotation_loop :: "nat \<Rightarrow> string \<Rightarrow> local_operator \<Rightarrow> local_operator" where
  "build_rotation_loop j [] localop = localop"
| "build_rotation_loop j (base # rest) localop =
     build_rotation_loop (Suc j) rest
       (if base = CHR ''X'' then localop @ [(U_X, j)]
        else if base = CHR ''Y'' then localop @ [(U_Y, j)]
        else if base = CHR ''Z'' \<or> base = CHR ''I'' then localop
        else localop)"

text \<open>\<open>hi_size\<close> is \<^verbatim>\<open>hi.size\<close>, the number of sites.\<close>

definition build_rotation :: "nat \<Rightarrow> string \<Rightarrow> error + local_operator" where
  "build_rotation hi_size basis =
     (if length basis \<noteq> hi_size then Inl AssertionError
      else Inr (build_rotation_loop 0 basis []))"

text \<open>
  An element of the basis collection is an operator (prebuilt by the caller, of an
  abstract type \<open>'op\<close>, or a rotation built here), a label string, or anything else.
\<close>

datatype 'op operator = Given 'op | LocalOp local_operator

datatype 'op basis = Op "'op operator" | Str string | Other

datatype 'op bases = NotAList | Bases "'op basis list"

text \<open>
  The loop of \<^verbatim>\<open>_check_bases_type\<close> over a collection whose first element is a string,
  with its cache keyed by the label string. An element that is not a string has no
  usable \<^verbatim>\<open>len\<close> for the assertion of \<^verbatim>\<open>_build_rotation\<close>: a type error.
\<close>

fun bases_loop ::
  "nat \<Rightarrow> (string \<rightharpoonup> local_operator) \<Rightarrow> 'op basis list \<Rightarrow> error + 'op basis list" where
  "bases_loop hi_size cache [] = Inr []"
| "bases_loop hi_size cache (Str basis # rest) =
     (case cache basis of
        Some U \<Rightarrow>
          (case bases_loop hi_size cache rest of
             Inl e \<Rightarrow> Inl e
           | Inr bs \<Rightarrow> Inr (Op (LocalOp U) # bs))
      | None \<Rightarrow>
          (case build_rotation hi_size basis of
             Inl e \<Rightarrow> Inl e
           | Inr U \<Rightarrow>
               (case bases_loop hi_size (cache(basis \<mapsto> U)) rest of
                  Inl e \<Rightarrow> Inl e
                | Inr bs \<Rightarrow> Inr (Op (LocalOp U) # bs))))"
| "bases_loop hi_size cache (_ # rest) = Inl TypeError"

definition check_bases_type :: "'op bases \<Rightarrow> error + 'op basis list" where
  "check_bases_type Us =
     (case Us of
        NotAList \<Rightarrow> Inl ValueError
      | Bases [] \<Rightarrow> Inl IndexError
      | Bases (Op U # rest) \<Rightarrow> Inr (Op U # rest)
      | Bases (Str s # rest) \<Rightarrow> bases_loop (length s) Map.empty (Str s # rest)
      | Bases (Other # rest) \<Rightarrow> Inl TypeError)"

section \<open>Dataset conversion\<close>

text \<open>
  \<^verbatim>\<open>U.get_conn(sigma)\<close> and \<^verbatim>\<open>U.hilbert.local_size\<close> belong to NetKet and are parameters
  \<open>get_conn\<close> and \<open>local_size\<close>. \<open>get_conn\<close> returns the connected configurations paired
  with their matrix elements: NetKet returns one matrix element per configuration.
  \<open>sigma_s\<close> is the sample array after \<^verbatim>\<open>reshape(-1, N)\<close>, as the list of its rows.
\<close>

record ('s, 'c) conv_state =
  cs_sigma_p :: "'s list list"
  cs_mels :: "'c list"
  cs_secs :: "int list"
  cs_MAX_LEN :: int
  cs_last_i :: int
  cs_Nc :: int

definition convert_step ::
  "('op operator \<Rightarrow> 's list \<Rightarrow> ('s list \<times> 'c) list) \<Rightarrow> nat \<Rightarrow> nat \<Rightarrow> 's list \<Rightarrow> 'op operator \<Rightarrow>
   ('s::zero, 'c::zero) conv_state \<Rightarrow> error + ('s, 'c) conv_state" where
  "convert_step get_conn N i sigma U st =
     (let conn = get_conn U sigma;
          sigma_p_i = map fst conn;
          mels_i = map snd conn;
          Nc = int (length mels_i);
          last_i = cs_last_i st;
          sigma_p1 = resize (cs_sigma_p st) (last_i + Nc) (replicate N 0);
          mels1 = resize (cs_mels st) (last_i + Nc) 0
      in case py_set_slice sigma_p1 last_i (int (length sigma_p1)) sigma_p_i of
           Inl e \<Rightarrow> Inl e
         | Inr sigma_p2 \<Rightarrow>
             (case py_set_slice mels1 last_i (int (length mels1)) mels_i of
                Inl e \<Rightarrow> Inl e
              | Inr mels2 \<Rightarrow>
                  Inr \<lparr>cs_sigma_p = sigma_p2, cs_mels = mels2,
                       cs_secs = (cs_secs st)[i := last_i],
                       cs_MAX_LEN = max Nc (cs_MAX_LEN st),
                       cs_last_i = last_i + Nc, cs_Nc = Nc\<rparr>))"

text \<open>
  The loop \<^verbatim>\<open>for (i, (sigma, U)) in enumerate(zip(sigma_s, Us))\<close>; an element of \<open>Us\<close>
  that is not an operator has no \<^verbatim>\<open>get_conn\<close>.
\<close>

fun convert_loop ::
  "('op operator \<Rightarrow> 's list \<Rightarrow> ('s list \<times> 'c) list) \<Rightarrow> nat \<Rightarrow> nat \<Rightarrow> ('s list \<times> 'op basis) list \<Rightarrow>
   ('s::zero, 'c::zero) conv_state \<Rightarrow> error + ('s, 'c) conv_state" where
  "convert_loop get_conn N i [] st = Inr st"
| "convert_loop get_conn N i ((sigma, Op U) # rest) st =
     (case convert_step get_conn N i sigma U st of
        Inl e \<Rightarrow> Inl e
      | Inr st' \<Rightarrow> convert_loop get_conn N (Suc i) rest st')"
| "convert_loop get_conn N i ((sigma, _) # rest) st = Inl AttributeError"

definition convert_data ::
  "('op operator \<Rightarrow> 's list \<Rightarrow> ('s list \<times> 'c) list) \<Rightarrow> ('op operator \<Rightarrow> nat) \<Rightarrow> nat \<Rightarrow>
   's list list \<Rightarrow> 'op bases \<Rightarrow>
   error + ('s::zero list list \<times> 'c::zero list \<times> int list \<times> int)" where
  "convert_data get_conn local_size N sigma_s Us0 =
     (case check_bases_type Us0 of
        Inl e \<Rightarrow> Inl e
      | Inr Us \<Rightarrow>
          (case hd Us of
             Op U0 \<Rightarrow>
               (let Nb = length sigma_s;
                    st0 = \<lparr>cs_sigma_p = [], cs_mels = [],
                           cs_secs = replicate (Nb + 1) 0, cs_MAX_LEN = 0,
                           cs_last_i = 0, cs_Nc = int (local_size U0)\<rparr>
                in case convert_loop get_conn N 0 (zip sigma_s Us) st0 of
                     Inl e \<Rightarrow> Inl e
                   | Inr st \<Rightarrow>
                       (let last_i = cs_last_i st; MAX_LEN = cs_MAX_LEN st; Nc = cs_Nc st;
                            sigma_p1 = resize (cs_sigma_p st) (last_i + MAX_LEN) (replicate N 0);
                            mels1 = resize (cs_mels st) (last_i + MAX_LEN) 0;
                            sigma_p2 = py_fill_from sigma_p1 (last_i + Nc) (replicate N 0);
                            mels2 = py_fill_from mels1 (last_i + Nc) 0;
                            secs = (cs_secs st)[length (cs_secs st) - 1 := last_i]
                        in Inr (sigma_p2, mels2, secs, MAX_LEN)))
           | _ \<Rightarrow> Inl AttributeError))"

section \<open>Batch composition\<close>

text \<open>
  The state of the copy loop of \<^verbatim>\<open>_compose_sampled_data\<close>: the two flat buffers, the
  new offsets, the running maximum segment length and the write position.
\<close>

record ('s, 'c) batch_state =
  b_sigma_p :: "'s list list"
  b_mels :: "'c list"
  b_secs :: "int list"
  b_maxlen :: int
  b_last_i :: int

definition compose_step ::
  "'s list list \<Rightarrow> 'c list \<Rightarrow> int list \<Rightarrow> nat \<Rightarrow> int \<Rightarrow>
   ('s, 'c) batch_state \<Rightarrow> error + ('s, 'c) batch_state" where
  "compose_step sigma_p mels secs n i st =
     (case py_get secs i of
        Inl e \<Rightarrow> Inl e
      | Inr start_i \<Rightarrow>
     (case py_get secs (i + 1) of
        Inl e \<Rightarrow> Inl e
      | Inr end_i \<Rightarrow>
     (let len_i = end_i - start_i; last_i = b_last_i st
      in case py_set_slice (b_sigma_p st) last_i (last_i + len_i)
                (py_slice sigma_p start_i end_i) of
           Inl e \<Rightarrow> Inl e
         | Inr sp \<Rightarrow>
        (case py_set_slice (b_mels st) last_i (last_i + len_i)
                (py_slice mels start_i end_i) of
           Inl e \<Rightarrow> Inl e
         | Inr ms \<Rightarrow>
             Inr \<lparr>b_sigma_p = sp, b_mels = ms,
                  b_secs = (b_secs st)[n + 1 := last_i + len_i],
                  b_maxlen = max (b_maxlen st) len_i,
                  b_last_i = last_i + len_i\<rparr>))))"

fun compose_loop ::
  "'s list list \<Rightarrow> 'c list \<Rightarrow> int list \<Rightarrow> nat \<Rightarrow> int list \<Rightarrow>
   ('s, 'c) batch_state \<Rightarrow> error + ('s, 'c) batch_state" where
  "compose_loop sigma_p mels secs n [] st = Inr st"
| "compose_loop sigma_p mels secs n (i # rest) st =
     (case compose_step sigma_p mels secs n i st of
        Inl e \<Rightarrow> Inl e
      | Inr st' \<Rightarrow> compose_loop sigma_p mels secs (Suc n) rest st')"

text \<open>
  \<open>N\<close> is \<^verbatim>\<open>sigma_p.shape[-1]\<close>. \<^verbatim>\<open>np.zeros\<close> refuses a negative dimension; the integer
  division by a zero padding factor raises under Numba's Python error model.
\<close>

definition compose_sampled_data ::
  "nat \<Rightarrow> 's list list \<Rightarrow> 'c list \<Rightarrow> int list \<Rightarrow> int \<Rightarrow> int list \<Rightarrow> int \<Rightarrow>
   error + ('s::zero list list \<times> 'c::zero list \<times> int list \<times> int)" where
  "compose_sampled_data N sigma_p mels secs MAX_LEN sampled_indices min_padding_factor =
     (let N_samples = int (length sampled_indices)
      in if N_samples * MAX_LEN < 0 then Inl ValueError
         else
           (let st0 = \<lparr>b_sigma_p = replicate (nat (N_samples * MAX_LEN)) (replicate N 0),
                       b_mels = replicate (nat (N_samples * MAX_LEN)) 0,
                       b_secs = replicate (nat (N_samples + 1)) 0,
                       b_maxlen = 0, b_last_i = 0\<rparr>
            in case compose_loop sigma_p mels secs 0 sampled_indices st0 of
                 Inl e \<Rightarrow> Inl e
               | Inr st \<Rightarrow>
                   (let padding_factor = max MAX_LEN min_padding_factor
                    in if padding_factor = 0 then Inl ZeroDivisionError
                       else
                         (let padded_size =
                                padding_factor *
                                  \<lceil>real_of_int (b_last_i st) / real_of_int padding_factor\<rceil>
                          in Inr (py_slice (b_sigma_p st) 0 padded_size,
                                  py_slice (b_mels st) 0 padded_size,
                                  b_secs st, b_maxlen st)))))"

section \<open>Segment sums\<close>

text \<open>
  \<^verbatim>\<open>jnp.cumsum\<close>, \<^verbatim>\<open>jnp.repeat(jnp.arange(N_rows), repeats, total_repeat_length=total_length)\<close> and
  \<^verbatim>\<open>jax.ops.segment_sum\<close> belong to JAX. \<open>jnp_repeat_arange\<close> follows JAX's algorithm for
  a given total length: the exclusive prefix sums of the repeats are the positions where
  a new row starts; a one is scattered to each such position inside the output (positions
  outside it are dropped), and the running count of ones, minus one, is the row gathered
  at each output position. The count lies in \<open>0..<N_rows\<close>, so gathering from
  \<^verbatim>\<open>arange(N_rows)\<close> returns it unchanged.

  \<open>segment_sum\<close> adds, for each row, the entries of the data whose segment id is that
  row. The entries are elements of a commutative monoid: the rounding of floating-point
  addition is not modelled, and the statements proved about \<open>sum_sections\<close> below use
  only which entries a row receives and that adding zero changes nothing, never
  cancellation.
\<close>

fun cumsum_from :: "int \<Rightarrow> int list \<Rightarrow> int list" where
  "cumsum_from acc [] = []"
| "cumsum_from acc (x # xs) = (acc + x) # cumsum_from (acc + x) xs"

definition cumsum :: "int list \<Rightarrow> int list" where
  "cumsum xs = cumsum_from 0 xs"

definition jnp_repeat_arange :: "nat \<Rightarrow> int list \<Rightarrow> nat \<Rightarrow> int list" where
  "jnp_repeat_arange N_rows repeats total_length =
     (if total_length = 0 then []
      else if N_rows = 0 then []
      else
        (let exclusive_repeats = 0 # butlast repeats;
             scatter_indices = cumsum exclusive_repeats;
             block_split_indicators =
               map (\<lambda>j. int (length (filter (\<lambda>s. s = int j) scatter_indices))) [0..<total_length];
             gather_indices = map (\<lambda>c. c - 1) (cumsum block_split_indicators)
         in gather_indices))"

definition segment_sum :: "'a::comm_monoid_add list \<Rightarrow> int list \<Rightarrow> nat \<Rightarrow> 'a list" where
  "segment_sum data segment_ids num_segments =
     map (\<lambda>s. sum_list (map fst (filter (\<lambda>(x, k). k = int s) (zip data segment_ids))))
       [0..<num_segments]"

definition sum_sections :: "'a::comm_monoid_add list \<Rightarrow> int list \<Rightarrow> 'a list" where
  "sum_sections arr secs =
     (let offsets = butlast secs;
          sizes = map2 (\<lambda>a b. a - b) (tl secs) offsets;
          N_rows = length secs - 1;
          indices = jnp_repeat_arange N_rows sizes (length arr)
      in segment_sum arr indices N_rows)"

section \<open>Parameter trees and gradients\<close>

text \<open>
  A PyTree is a nested dictionary of arrays. An array is the list of its entries (a
  gradient array has complex entries); a parameter leaf also carries its dtype, which is
  what \<^verbatim>\<open>jnp.iscomplexobj\<close> reads.
\<close>

datatype 'a pytree = Leaf 'a | Node "(string \<times> 'a pytree) list"

datatype dtype = Float | Complex

type_synonym grad_tree = "complex list pytree"

type_synonym param_tree = "(dtype \<times> complex list) pytree"

text \<open>
  \<^verbatim>\<open>jax.tree_map(f, t1, t2)\<close>: the two trees must have the same structure (the same keys
  in the same order at every level); \<open>f\<close> is applied to corresponding leaves.
\<close>

fun tree_map2 :: "('a \<Rightarrow> 'b \<Rightarrow> 'c) \<Rightarrow> 'a pytree \<Rightarrow> 'b pytree \<Rightarrow> error + 'c pytree"
  and tree_map2_items ::
    "('a \<Rightarrow> 'b \<Rightarrow> 'c) \<Rightarrow> (string \<times> 'a pytree) list \<Rightarrow> (string \<times> 'b pytree) list \<Rightarrow>
     error + (string \<times> 'c pytree) list" where
  "tree_map2 f (Leaf x) (Leaf y) = Inr (Leaf (f x y))"
| "tree_map2 f (Node xs) (Node ys) =
     (case tree_map2_items f xs ys of Inl e \<Rightarrow> Inl e | Inr zs \<Rightarrow> Inr (Node zs))"
| "tree_map2 f (Leaf x) (Node ys) = Inl ValueError"
| "tree_map2 f (Node xs) (Leaf y) = Inl ValueError"
| "tree_map2_items f [] [] = Inr []"
| "tree_map2_items f ((k, t) # xs) ((k', t') # ys) =
     (if k = k' then
        (case tree_map2 f t t' of
           Inl e \<Rightarrow> Inl e
         | Inr u \<Rightarrow>
             (case tree_map2_items f xs ys of
                Inl e \<Rightarrow> Inl e
              | Inr us \<Rightarrow> Inr ((k, u) # us)))
      else Inl ValueError)"
| "tree_map2_items f [] (y # ys) = Inl ValueError"
| "tree_map2_items f (x # xs) [] = Inl ValueError"

text \<open>\<^verbatim>\<open>jax.tree_util.tree_leaves\<close>: the leaves in traversal order.\<close>

fun leaves :: "'a pytree \<Rightarrow> 'a list" where
  "leaves (Leaf x) = [x]"
| "leaves (Node xs) = concat (map (\<lambda>kt. leaves (snd kt)) xs)"

text \<open>
  \<^verbatim>\<open>compose_grads\<close>: \<^verbatim>\<open>2.0 * jnp.conj(x - y)\<close>, entry by entry, on corresponding leaves
  (the two gradient trees have the shapes of the parameters).
\<close>

definition compose_grads :: "grad_tree \<Rightarrow> grad_tree \<Rightarrow> error + grad_tree" where
  "compose_grads grad_neg grad_pos =
     tree_map2 (\<lambda>x y. map2 (\<lambda>a b. 2 * cnj (a - b)) x y) grad_neg grad_pos"

definition iscomplexobj :: "dtype \<times> complex list \<Rightarrow> bool" where
  "iscomplexobj target = (fst target = Complex)"

text \<open>\<^verbatim>\<open>x.real\<close> on an array.\<close>

definition array_real :: "complex list \<Rightarrow> complex list" where
  "array_real x = map (\<lambda>z. complex_of_real (Re z)) x"

text \<open>The last \<^verbatim>\<open>jax.tree_map\<close> of \<^verbatim>\<open>_forward_and_backward\<close>.\<close>

definition real_projection :: "grad_tree \<Rightarrow> param_tree \<Rightarrow> error + grad_tree" where
  "real_projection dp parameters =
     tree_map2 (\<lambda>x target. if iscomplexobj target then x else array_real x) dp parameters"

text \<open>NetKet's default preconditioner returns the gradient it is given.\<close>

definition identity_preconditioner :: "'vs \<Rightarrow> grad_tree \<Rightarrow> grad_tree" where
  "identity_preconditioner vstate gradient = gradient"

section \<open>The QSR driver\<close>

text \<open>
  The collaborators of the driver, outside this repository or not expressible here, are
  the fields of \<open>collaborators\<close>:
  \<^item> \<open>jax_PRNGKey\<close>, \<open>mpi_split\<close> (key, number of workers, rank of this worker),
    \<open>default_rng\<close> and \<open>integers\<close> (generator, exclusive upper bound, size; it returns the
    drawn array and the advanced generator, or raises): JAX, NetKet and NumPy;
  \<^item> \<open>reset\<close>, \<open>parameters\<close>: the variational state;
  \<^item> \<open>avg_O\<close> and \<open>grad_local_value_rotated\<close>: the two gradient phases, obtained by
    reverse-mode differentiation through the ansatz;
  \<^item> \<open>preconditioner\<close>, and \<open>update_parameters\<close> (the optimizer step of the training loop);
  \<^item> \<open>nll_value\<close>: the floating-point value that \<^verbatim>\<open>nll\<close> computes from the last batch.
\<close>

type_synonym ('s, 'c) batch = "'s list list \<times> 'c list \<times> int list \<times> int"

record ('k, 'g, 'vs, 's, 'c) collaborators =
  jax_PRNGKey :: "int \<Rightarrow> 'k"
  mpi_split :: "'k \<Rightarrow> nat \<Rightarrow> nat \<Rightarrow> 'k"
  default_rng :: "'k \<Rightarrow> 'g"
  integers :: "'g \<Rightarrow> int \<Rightarrow> nat \<Rightarrow> error + (int list \<times> 'g)"
  reset :: "'vs \<Rightarrow> 'vs"
  parameters :: "'vs \<Rightarrow> param_tree"
  avg_O :: "'vs \<Rightarrow> grad_tree"
  grad_local_value_rotated :: "'vs \<Rightarrow> 's list list \<Rightarrow> 'c list \<Rightarrow> int list \<Rightarrow> grad_tree"
  preconditioner :: "'vs \<Rightarrow> grad_tree \<Rightarrow> grad_tree"
  update_parameters :: "grad_tree \<Rightarrow> 'vs \<Rightarrow> 'vs"
  nll_value :: "'vs \<Rightarrow> ('s, 'c) batch \<Rightarrow> real"

text \<open>
  The attributes of a \<^verbatim>\<open>QSR\<close> object. \<open>training_N\<close> is the number of columns of
  \<^verbatim>\<open>_training_sigma_p\<close>. An attribute that \<^verbatim>\<open>__init__\<close> does not create is \<open>None\<close> until
  the method that assigns it has run; \<^verbatim>\<open>_sigma_p\<close>, \<^verbatim>\<open>_mels\<close>, \<^verbatim>\<open>_secs\<close> and \<^verbatim>\<open>_maxlen\<close> are
  assigned together and are the field \<open>last_batch\<close>.
\<close>

record ('g, 'vs, 's, 'c) qsr =
  state :: 'vs
  rng :: 'g
  training_N :: nat
  training_sigma_p :: "'s list list"
  training_mels :: "'c list"
  training_secs :: "int list"
  training_max_len :: int
  training_samples_n :: int
  training_batch_size :: nat
  dp :: "grad_tree option"
  grad_neg :: "grad_tree option"
  sampled_indices :: "int list option"
  last_batch :: "('s, 'c) batch option"
  grad_pos :: "grad_tree option"
  loss_grad :: "grad_tree option"

text \<open>
  The argument \<^verbatim>\<open>training_data\<close>: a tuple of two elements, the sample array (its number
  of columns and its rows) and the bases, or anything else.
\<close>

datatype ('s, 'op) training_data =
    NotATuple2
  | Data nat "'s list list" "'op bases"

text \<open>
  \<^verbatim>\<open>nkjax.PRNGKey(seed)\<close>: without a seed NetKet draws one from the process's own source
  of randomness, here the argument \<open>entropy\<close>.
\<close>

definition PRNGKey :: "('k, 'g, 'vs, 's, 'c) collaborators \<Rightarrow> int \<Rightarrow> int option \<Rightarrow> 'k" where
  "PRNGKey env entropy seed =
     (case seed of None \<Rightarrow> jax_PRNGKey env entropy | Some s \<Rightarrow> jax_PRNGKey env s)"

definition qsr_init ::
  "('k, 'g, 'vs, 's, 'c) collaborators \<Rightarrow>
   ('op operator \<Rightarrow> 's list \<Rightarrow> ('s list \<times> 'c) list) \<Rightarrow> ('op operator \<Rightarrow> nat) \<Rightarrow>
   nat \<Rightarrow> nat \<Rightarrow> int \<Rightarrow>
   ('s, 'op) training_data \<Rightarrow> nat \<Rightarrow> 'vs \<Rightarrow> int option \<Rightarrow>
   error + ('g, 'vs, 's::zero, 'c::zero) qsr" where
  "qsr_init env get_conn local_size n_nodes rank entropy
      training_data batch_size variational_state seed =
     (case training_data of
        NotATuple2 \<Rightarrow> Inl TypeError
      | Data N sigma_s Us \<Rightarrow>
          (let g = default_rng env (mpi_split env (PRNGKey env entropy seed) n_nodes rank)
           in case convert_data get_conn local_size N sigma_s Us of
                Inl e \<Rightarrow> Inl e
              | Inr (sigma_p, mels, secs, MAX_LEN) \<Rightarrow>
                  Inr \<lparr>state = variational_state, rng = g, training_N = N,
                       training_sigma_p = sigma_p, training_mels = mels,
                       training_secs = secs, training_max_len = MAX_LEN,
                       training_samples_n = int (length secs) - 1,
                       training_batch_size = batch_size,
                       dp = None, grad_neg = None, sampled_indices = None,
                       last_batch = None, grad_pos = None, loss_grad = None\<rparr>))"

text \<open>
  One training step. An exception ends the step: the model then returns the error alone.
\<close>

definition forward_and_backward ::
  "('k, 'g, 'vs, 's, 'c) collaborators \<Rightarrow> ('g, 'vs, 's::zero, 'c::zero) qsr \<Rightarrow>
   error + (grad_tree \<times> ('g, 'vs, 's, 'c) qsr)" where
  "forward_and_backward env self =
     (let st = reset env (state self);
          g_neg = avg_O env st
      in case integers env (rng self) (training_samples_n self) (training_batch_size self) of
           Inl e \<Rightarrow> Inl e
         | Inr (drawn, g') \<Rightarrow>
        (let idx = sort drawn
         in case compose_sampled_data (training_N self) (training_sigma_p self)
                   (training_mels self) (training_secs self) (training_max_len self) idx 128 of
              Inl e \<Rightarrow> Inl e
            | Inr (sigma_p, mels, secs, maxlen) \<Rightarrow>
           (let g_pos = grad_local_value_rotated env st sigma_p mels secs
            in case compose_grads g_neg g_pos of
                 Inl e \<Rightarrow> Inl e
               | Inr l_grad \<Rightarrow>
                   (case real_projection (preconditioner env st l_grad) (parameters env st) of
                      Inl e \<Rightarrow> Inl e
                    | Inr d \<Rightarrow>
                        Inr (d, self\<lparr>state := st, rng := g', dp := Some d,
                                    grad_neg := Some g_neg, sampled_indices := Some idx,
                                    last_batch := Some (sigma_p, mels, secs, maxlen),
                                    grad_pos := Some g_pos, loss_grad := Some l_grad\<rparr>)))))"

text \<open>
  \<^verbatim>\<open>nll\<close> reads \<^verbatim>\<open>self._sigma_p\<close>, \<^verbatim>\<open>self._mels\<close> and \<^verbatim>\<open>self._secs\<close> before it computes
  anything: reading an attribute that does not exist raises.
\<close>

definition nll :: "('k, 'g, 'vs, 's, 'c) collaborators \<Rightarrow> ('g, 'vs, 's, 'c) qsr \<Rightarrow> error + real" where
  "nll env self =
     (case last_batch self of
        None \<Rightarrow> Inl AttributeError
      | Some b \<Rightarrow> Inr (nll_value env (state self) b))"

text \<open>
  The training loop of NetKet's abstract driver: each iteration runs one step and hands
  the update to the optimizer. \<open>run\<close> returns the index arrays sampled step after step.
\<close>

fun run ::
  "('k, 'g, 'vs, 's, 'c) collaborators \<Rightarrow> nat \<Rightarrow> ('g, 'vs, 's::zero, 'c::zero) qsr \<Rightarrow>
   error + (int list list \<times> ('g, 'vs, 's, 'c) qsr)" where
  "run env 0 self = Inr ([], self)"
| "run env (Suc n_iter) self =
     (case forward_and_backward env self of
        Inl e \<Rightarrow> Inl e
      | Inr (d, self') \<Rightarrow>
          (case run env n_iter (self'\<lparr>state := update_parameters env d (state self')\<rparr>) of
             Inl e \<Rightarrow> Inl e
           | Inr (idxs, self'') \<Rightarrow>
               (case sampled_indices self' of
                  None \<Rightarrow> Inl AttributeError
                | Some idx \<Rightarrow> Inr (idx # idxs, self''))))"

section \<open>Segments\<close>

text \<open>
  Segment \<open>i\<close> of a flat array under the offsets \<open>secs\<close> is the slice
  \<^verbatim>\<open>xs[secs[i]:secs[i+1]]\<close>. \<open>segmented\<close> is the invariant of the data model for a
  dataset in segmented form: the offsets start at zero and do not decrease, no segment is
  longer than \<open>MAX_LEN\<close>, and the last offset lies inside both flat arrays.
\<close>

definition segment :: "'a list \<Rightarrow> int list \<Rightarrow> nat \<Rightarrow> 'a list" where
  "segment xs secs i = py_slice xs (secs ! i) (secs ! Suc i)"

definition segmented :: "'s list list \<Rightarrow> 'c list \<Rightarrow> int list \<Rightarrow> int \<Rightarrow> bool" where
  "segmented sigma_p mels secs MAX_LEN \<longleftrightarrow>
     secs \<noteq> [] \<and> hd secs = 0 \<and> sorted secs \<and> 0 \<le> MAX_LEN \<and>
     list_all (\<lambda>(a, b). b - a \<le> MAX_LEN) (zip secs (tl secs)) \<and>
     last secs \<le> int (length sigma_p) \<and> last secs \<le> int (length mels)"

text \<open>
  The connected configurations of one zipped pair (sample, basis) and the segment lengths
  of a list of pairs.
\<close>

definition conn_of ::
  "('op operator \<Rightarrow> 's list \<Rightarrow> ('s list \<times> 'c) list) \<Rightarrow> 's list \<times> 'op basis \<Rightarrow> ('s list \<times> 'c) list" where
  "conn_of get_conn p = (case snd p of Op U \<Rightarrow> get_conn U (fst p) | _ \<Rightarrow> [])"

definition seg_counts ::
  "('op operator \<Rightarrow> 's list \<Rightarrow> ('s list \<times> 'c) list) \<Rightarrow> ('s list \<times> 'op basis) list \<Rightarrow> int list" where
  "seg_counts get_conn ps = map (\<lambda>p. int (length (conn_of get_conn p))) ps"

section \<open>A small instance\<close>

text \<open>
  Two records measured in the computational basis on one site, a generator that counts,
  and a model with one real and one complex parameter whose negative-phase gradient is
  the constant \<open>g\<close>. The theorems below are applied to it.
\<close>

definition example_env :: "complex \<Rightarrow> (int, int, param_tree, int, complex) collaborators" where
  "example_env g =
     \<lparr>jax_PRNGKey = (\<lambda>s. s),
      mpi_split = (\<lambda>k n r. k * int n + int r),
      default_rng = (\<lambda>k. k),
      integers = (\<lambda>g high size.
         if high \<le> 0 then Inl ValueError
         else Inr (map (\<lambda>j. (g + int j) mod high) [0..<size], g + 1)),
      reset = (\<lambda>vs. vs),
      parameters = (\<lambda>vs. vs),
      avg_O = (\<lambda>vs. Node [(''a'', Leaf [g]), (''b'', Leaf [g])]),
      grad_local_value_rotated = (\<lambda>vs sigma_p mels secs. Node [(''a'', Leaf [0]), (''b'', Leaf [0])]),
      preconditioner = identity_preconditioner,
      update_parameters = (\<lambda>d vs. vs),
      nll_value = (\<lambda>vs b. 0)\<rparr>"

definition example_parameters :: param_tree where
  "example_parameters = Node [(''a'', Leaf (Float, [1])), (''b'', Leaf (Complex, [1]))]"

definition example_get_conn :: "unit operator \<Rightarrow> int list \<Rightarrow> (int list \<times> complex) list" where
  "example_get_conn U sigma = [(sigma, 1)]"

definition example_data :: "(int, unit) training_data" where
  "example_data = Data 1 [[1], [- 1]] (Bases [Str ''Z'', Str ''Z''])"

definition example_driver :: "(int, param_tree, int, complex) qsr" where
  "example_driver =
     \<lparr>state = example_parameters, rng = 7, training_N = 1,
      training_sigma_p = [[1], [- 1], [0]], training_mels = [1, 1, 0],
      training_secs = [0, 1, 2], training_max_len = 1,
      training_samples_n = 2, training_batch_size = 2,
      dp = None, grad_neg = None, sampled_indices = None,
      last_batch = None, grad_pos = None, loss_grad = None\<rparr>"

text \<open>
  A second dataset, converted from three samples whose records have three, one and two
  connected configurations.
\<close>

definition varied_get_conn :: "unit operator \<Rightarrow> int list \<Rightarrow> (int list \<times> int) list" where
  "varied_get_conn U sigma = map (\<lambda>k. (sigma, 10 * hd sigma + int k)) [0..<nat (hd sigma)]"

definition varied_sigma_p :: "int list list" where
  "varied_sigma_p = [[3], [3], [3], [1], [2], [2], [0], [0], [0]]"

definition varied_mels :: "int list" where
  "varied_mels = [30, 31, 32, 10, 20, 21, 0, 0, 0]"

definition varied_secs :: "int list" where
  "varied_secs = [0, 3, 4, 6]"

section \<open>Building rotations: errors\<close>

lemma set_build_rotation_loop:
  "set (build_rotation_loop j basis acc) =
     set acc \<union> {(r, j + k) | r k. k < length basis \<and>
        (basis ! k = CHR ''X'' \<and> r = U_X \<or> basis ! k = CHR ''Y'' \<and> r = U_Y)}"
proof (induction basis arbitrary: j acc)
  case Nil
  then show ?case by simp
next
  case (Cons base rest)
  have split: "{(r, j + k) | r k. k < length (base # rest) \<and>
        ((base # rest) ! k = CHR ''X'' \<and> r = U_X \<or> (base # rest) ! k = CHR ''Y'' \<and> r = U_Y)}
      = {(r, j) | r. base = CHR ''X'' \<and> r = U_X \<or> base = CHR ''Y'' \<and> r = U_Y}
        \<union> {(r, Suc j + k) | r k. k < length rest \<and>
        (rest ! k = CHR ''X'' \<and> r = U_X \<or> rest ! k = CHR ''Y'' \<and> r = U_Y)}"
    (is "?L = ?A \<union> ?B")
  proof (rule set_eqI, rule iffI)
    fix p assume "p \<in> ?L"
    then obtain r k where p: "p = (r, j + k)" and k: "k < length (base # rest)"
      and l: "(base # rest) ! k = CHR ''X'' \<and> r = U_X \<or> (base # rest) ! k = CHR ''Y'' \<and> r = U_Y"
      by blast
    show "p \<in> ?A \<union> ?B"
    proof (cases k)
      case 0
      with p l show ?thesis by auto
    next
      case (Suc k')
      with p k l have "p \<in> ?B" by auto
      then show ?thesis by blast
    qed
  next
    fix p assume "p \<in> ?A \<union> ?B"
    then show "p \<in> ?L"
    proof
      assume "p \<in> ?A"
      then have "\<exists>r k. p = (r, j + k) \<and> k < length (base # rest) \<and>
        ((base # rest) ! k = CHR ''X'' \<and> r = U_X \<or> (base # rest) ! k = CHR ''Y'' \<and> r = U_Y)"
        by (intro exI[where x="fst p"] exI[where x=0]) auto
      then show ?thesis by blast
    next
      assume "p \<in> ?B"
      then obtain r k where "p = (r, Suc j + k)" "k < length rest"
        "rest ! k = CHR ''X'' \<and> r = U_X \<or> rest ! k = CHR ''Y'' \<and> r = U_Y" by blast
      then have "\<exists>r k'. p = (r, j + k') \<and> k' < length (base # rest) \<and>
        ((base # rest) ! k' = CHR ''X'' \<and> r = U_X \<or> (base # rest) ! k' = CHR ''Y'' \<and> r = U_Y)"
        by (intro exI[where x=r] exI[where x="Suc k"]) auto
      then show ?thesis by blast
    qed
  qed
  show ?case
    unfolding split by (simp add: Cons.IH)
qed

lemma build_rotation_loop_enumerate:
  "build_rotation_loop j basis acc =
     acc @ concat (map (\<lambda>(k, base). if base = CHR ''X'' then [(U_X, k)]
                                   else if base = CHR ''Y'' then [(U_Y, k)] else [])
                       (zip [j..<j + length basis] basis))"
proof (induction basis arbitrary: j acc)
  case Nil
  show ?case by simp
next
  case (Cons base rest)
  have e: "j + length (base # rest) = Suc j + length rest" by simp
  have lt: "j < j + length (base # rest)" by simp
  have u: "[j..<j + length (base # rest)] = j # [Suc j..<Suc j + length rest]"
    unfolding e [symmetric] using lt by (rule upt_conv_Cons)
  show ?case unfolding u by (simp add: Cons.IH)
qed

lemma concat_map_if_singleton:
  "concat (map (\<lambda>x. if P x then [h x] else []) xs) = map h (filter P xs)"
  by (induction xs) simp_all

lemma zip_upt_nth: "zip [0..<length xs] xs = map (\<lambda>j. (j, xs ! j)) [0..<length xs]"
  by (rule nth_equalityI) simp_all

lemma build_rotation_loop_factors:
  "build_rotation_loop 0 basis [] =
     map (\<lambda>j. (if basis ! j = CHR ''X'' then U_X else U_Y, j))
       (filter (\<lambda>j. basis ! j = CHR ''X'' \<or> basis ! j = CHR ''Y'') [0..<length basis])"
proof -
  have "build_rotation_loop 0 basis [] =
      concat (map (\<lambda>(k, base). if base = CHR ''X'' then [(U_X, k)]
                                   else if base = CHR ''Y'' then [(U_Y, k)] else [])
                       (map (\<lambda>j. (j, basis ! j)) [0..<length basis]))"
    unfolding build_rotation_loop_enumerate zip_upt_nth [symmetric] by simp
  also have "\<dots> = concat (map (\<lambda>j. if basis ! j = CHR ''X'' \<or> basis ! j = CHR ''Y''
        then [(if basis ! j = CHR ''X'' then U_X else U_Y, j)] else []) [0..<length basis])"
    by (simp add: comp_def) (rule arg_cong [where f = concat], rule map_cong, simp_all)
  also have "\<dots> = map (\<lambda>j. (if basis ! j = CHR ''X'' then U_X else U_Y, j))
       (filter (\<lambda>j. basis ! j = CHR ''X'' \<or> basis ! j = CHR ''Y'') [0..<length basis])"
    by (rule concat_map_if_singleton)
  finally show ?thesis .
qed

text \<open>
  C5, as the code has it. \<^verbatim>\<open>_build_rotation\<close> fails exactly when the length of the
  descriptor differs from the number of sites, and then with an assertion error, not a
  type error. It never fails on a label: the operator it returns is the product, in site
  order, of exactly one factor for each site labelled X or Y (the rotation of that label
  at that site), and a site with any other label, recognised or not, contributes none.
\<close>

theorem build_rotation_errors:
  "(length basis \<noteq> n \<longrightarrow> build_rotation n basis = Inl AssertionError) \<and>
   (length basis = n \<longrightarrow>
      (\<exists>U. build_rotation n basis = Inr U \<and>
        U = map (\<lambda>j. (if basis ! j = CHR ''X'' then U_X else U_Y, j))
              (filter (\<lambda>j. basis ! j = CHR ''X'' \<or> basis ! j = CHR ''Y'') [0..<n]) \<and>
        (\<forall>r j. (r, j) \<in> set U \<longleftrightarrow>
           j < n \<and> (basis ! j = CHR ''X'' \<and> r = U_X \<or> basis ! j = CHR ''Y'' \<and> r = U_Y))))"
proof (intro conjI impI)
  assume "length basis \<noteq> n"
  then show "build_rotation n basis = Inl AssertionError" by (simp add: build_rotation_def)
next
  assume n: "length basis = n"
  have 1: "build_rotation n basis = Inr (build_rotation_loop 0 basis [])"
    using n by (simp add: build_rotation_def)
  have 2: "build_rotation_loop 0 basis [] = map (\<lambda>j. (if basis ! j = CHR ''X'' then U_X else U_Y, j))
              (filter (\<lambda>j. basis ! j = CHR ''X'' \<or> basis ! j = CHR ''Y'') [0..<n])"
    unfolding n [symmetric] by (rule build_rotation_loop_factors)
  have 3: "\<forall>r j. (r, j) \<in> set (build_rotation_loop 0 basis []) \<longleftrightarrow>
           j < n \<and> (basis ! j = CHR ''X'' \<and> r = U_X \<or> basis ! j = CHR ''Y'' \<and> r = U_Y)"
    using n by (auto simp: set_build_rotation_loop)
  from 1 2 3 show "\<exists>U. build_rotation n basis = Inr U \<and>
        U = map (\<lambda>j. (if basis ! j = CHR ''X'' then U_X else U_Y, j))
              (filter (\<lambda>j. basis ! j = CHR ''X'' \<or> basis ! j = CHR ''Y'') [0..<n]) \<and>
        (\<forall>r j. (r, j) \<in> set U \<longleftrightarrow>
           j < n \<and> (basis ! j = CHR ''X'' \<and> r = U_X \<or> basis ! j = CHR ''Y'' \<and> r = U_Y))"
    by blast
qed

theorem build_rotation_errors_witness:
  "length ''X'' \<noteq> (2::nat) \<and> build_rotation 2 ''X'' = Inl AssertionError \<and>
   length ''YQX'' = (3::nat) \<and> build_rotation 3 ''YQX'' = Inr [(U_Y, 0), (U_X, 2)]"
proof -
  have a: "build_rotation 2 ''X'' = Inl AssertionError"
    using build_rotation_errors [of "''X''" 2] by simp
  from build_rotation_errors [of "''YQX''" 3]
  obtain U where u: "build_rotation 3 ''YQX'' = Inr U"
    "U = map (\<lambda>j. (if ''YQX'' ! j = CHR ''X'' then U_X else U_Y, j))
              (filter (\<lambda>j. ''YQX'' ! j = CHR ''X'' \<or> ''YQX'' ! j = CHR ''Y'') [0..<3])"
    by auto
  have "U = [(U_Y, 0), (U_X, 2)]" unfolding u(2) by (simp add: upt_rec)
  with u(1) a show ?thesis by simp
qed

text \<open>
  C5 as stated fails: the label Q is not recognised and the rotation is built; the
  descriptor X is too short for two sites and the failure is an assertion error.
\<close>

theorem build_rotation_type_error_counterexample:
  "CHR ''Q'' \<notin> set ''XYZI'' \<and> build_rotation 2 ''XQ'' = Inr [(U_X, 0)] \<and>
   length ''X'' \<noteq> (2::nat) \<and> build_rotation 2 ''X'' = Inl AssertionError"
  by (simp add: build_rotation_def)


section \<open>The training step\<close>

lemma tree_map2_leaves_aux:
  "(\<forall>c. tree_map2 f a b = Inr c \<longrightarrow>
      length (leaves a) = length (leaves b) \<and> leaves c = map2 f (leaves a) (leaves b))"
  "(\<forall>zs. tree_map2_items f xs ys = Inr zs \<longrightarrow>
      length (concat (map (\<lambda>kt. leaves (snd kt)) xs)) = length (concat (map (\<lambda>kt. leaves (snd kt)) ys)) \<and>
      concat (map (\<lambda>kt. leaves (snd kt)) zs) =
        map2 f (concat (map (\<lambda>kt. leaves (snd kt)) xs)) (concat (map (\<lambda>kt. leaves (snd kt)) ys)))"
proof (induction f a b and f xs ys rule: tree_map2_tree_map2_items.induct)
  case (2 f xs ys)
  then show ?case by (auto split: sum.splits)
next
  case (6 f k t xs k' t' ys)
  then show ?case by (auto split: sum.splits if_splits)
qed auto

lemma tree_map2_leaves:
  assumes "tree_map2 f a b = Inr c"
  shows "length (leaves a) = length (leaves b)" and "leaves c = map2 f (leaves a) (leaves b)"
  using assms tree_map2_leaves_aux(1) [of f a b] by auto

lemma forward_and_backward_Inr:
  assumes "forward_and_backward env self = Inr (d, self')"
  shows "\<exists>drawn g' sigma_p mels secs maxlen l_grad.
     integers env (rng self) (training_samples_n self) (training_batch_size self) = Inr (drawn, g') \<and>
     compose_sampled_data (training_N self) (training_sigma_p self) (training_mels self)
        (training_secs self) (training_max_len self) (sort drawn) 128 = Inr (sigma_p, mels, secs, maxlen) \<and>
     compose_grads (avg_O env (reset env (state self)))
        (grad_local_value_rotated env (reset env (state self)) sigma_p mels secs) = Inr l_grad \<and>
     real_projection (preconditioner env (reset env (state self)) l_grad)
        (parameters env (reset env (state self))) = Inr d \<and>
     self' = self\<lparr>state := reset env (state self), rng := g', dp := Some d,
                  grad_neg := Some (avg_O env (reset env (state self))),
                  sampled_indices := Some (sort drawn),
                  last_batch := Some (sigma_p, mels, secs, maxlen),
                  grad_pos := Some (grad_local_value_rotated env (reset env (state self)) sigma_p mels secs),
                  loss_grad := Some l_grad\<rparr>"
  using assms unfolding forward_and_backward_def Let_def
  by (auto split: sum.splits prod.splits)

lemma example_init:
  "qsr_init (example_env g) example_get_conn (\<lambda>U. 2) 1 0 e example_data 2 example_parameters (Some 7)
     = Inr example_driver"
  by (simp add: qsr_init_def example_data_def example_env_def PRNGKey_def convert_data_def
      check_bases_type_def build_rotation_def convert_step_def resize_def py_set_slice_def
      slice_bound_def py_fill_from_def example_get_conn_def example_driver_def Let_def)

lemma example_step:
  "forward_and_backward (example_env \<i>) example_driver =
     Inr (Node [(''a'', Leaf [0]), (''b'', Leaf [- 2 * \<i>])],
          example_driver\<lparr>rng := 8,
            dp := Some (Node [(''a'', Leaf [0]), (''b'', Leaf [- 2 * \<i>])]),
            grad_neg := Some (Node [(''a'', Leaf [\<i>]), (''b'', Leaf [\<i>])]),
            sampled_indices := Some [0, 1],
            last_batch := Some ([[1], [- 1]], [1, 1], [0, 1, 2], 1),
            grad_pos := Some (Node [(''a'', Leaf [0]), (''b'', Leaf [0])]),
            loss_grad := Some (Node [(''a'', Leaf [- 2 * \<i>]), (''b'', Leaf [- 2 * \<i>])])\<rparr>)"
  by code_simp

lemma example_run:
  "map_sum id fst (run (example_env g) (Suc (Suc 0)) example_driver) = Inr [[0, 1], [0, 1]]"
  if "g = \<i> \<or> g = 1"
  using that by (elim disjE; hypsubst) code_simp+

text \<open>
  C7. When a training step returns, every leaf of the update whose parameter leaf has a
  real dtype has entries with zero imaginary part, whatever the preconditioner returned
  there, and every leaf whose parameter leaf has a complex dtype is the leaf the
  preconditioner returned.
\<close>

theorem real_parameter_projection:
  assumes "forward_and_backward env self = Inr (d, self')"
  shows "\<exists>l_grad. loss_grad self' = Some l_grad \<and>
     length (leaves d) = length (leaves (parameters env (state self'))) \<and>
     length (leaves (preconditioner env (state self') l_grad)) = length (leaves (parameters env (state self'))) \<and>
     (\<forall>k < length (leaves (parameters env (state self'))).
        (fst (leaves (parameters env (state self')) ! k) = Float \<longrightarrow>
            (\<forall>z \<in> set (leaves d ! k). Im z = 0)) \<and>
        (fst (leaves (parameters env (state self')) ! k) = Complex \<longrightarrow>
            leaves d ! k = leaves (preconditioner env (state self') l_grad) ! k))"
proof -
  from forward_and_backward_Inr [OF assms] obtain l_grad where
    lg: "loss_grad self' = Some l_grad" and
    st: "state self' = reset env (state self)" and
    rp: "real_projection (preconditioner env (reset env (state self)) l_grad)
           (parameters env (reset env (state self))) = Inr d"
    by auto
  let ?raw = "preconditioner env (state self') l_grad"
  let ?ps = "parameters env (state self')"
  from rp st have tm: "tree_map2 (\<lambda>x target. if iscomplexobj target then x else array_real x) ?raw ?ps = Inr d"
    by (simp add: real_projection_def)
  note len = tree_map2_leaves(1) [OF tm] and lv = tree_map2_leaves(2) [OF tm]
  have "length (leaves d) = length (leaves ?ps)"
    using len lv by simp
  moreover have "\<forall>k < length (leaves ?ps).
        (fst (leaves ?ps ! k) = Float \<longrightarrow> (\<forall>z \<in> set (leaves d ! k). Im z = 0)) \<and>
        (fst (leaves ?ps ! k) = Complex \<longrightarrow> leaves d ! k = leaves ?raw ! k)"
    using len lv by (auto simp: iscomplexobj_def array_real_def)
  ultimately show ?thesis using lg len by blast
qed

text \<open>
  At the small instance the step returns; the real leaf of the update has no imaginary
  part and the complex leaf is the preconditioned one.
\<close>

theorem real_parameter_projection_witness:
  "forward_and_backward (example_env \<i>) example_driver =
     Inr (Node [(''a'', Leaf [0]), (''b'', Leaf [- 2 * \<i>])],
          example_driver\<lparr>rng := 8,
            dp := Some (Node [(''a'', Leaf [0]), (''b'', Leaf [- 2 * \<i>])]),
            grad_neg := Some (Node [(''a'', Leaf [\<i>]), (''b'', Leaf [\<i>])]),
            sampled_indices := Some [0, 1],
            last_batch := Some ([[1], [- 1]], [1, 1], [0, 1, 2], 1),
            grad_pos := Some (Node [(''a'', Leaf [0]), (''b'', Leaf [0])]),
            loss_grad := Some (Node [(''a'', Leaf [- 2 * \<i>]), (''b'', Leaf [- 2 * \<i>])])\<rparr>) \<and>
   leaves example_parameters = [(Float, [1]), (Complex, [1])] \<and>
   Im (hd (leaves (Node [(''a'', Leaf [0]), (''b'', Leaf [- 2 * \<i>])]) ! 0)) = 0 \<and>
   leaves (Node [(''a'', Leaf [0]), (''b'', Leaf [- 2 * \<i>])]) ! 1 =
     leaves (preconditioner (example_env \<i>) example_parameters
       (Node [(''a'', Leaf [- 2 * \<i>]), (''b'', Leaf [- 2 * \<i>])])) ! 1"
  using real_parameter_projection [OF example_step] example_step
  by (simp add: example_parameters_def example_driver_def example_env_def
      identity_preconditioner_def)

text \<open>
  C6, as the code has it. With the identity preconditioner the update agrees with the loss
  gradient \<open>2 * cnj (negative - positive)\<close> on every leaf whose parameter dtype is
  complex, and is its real part on every leaf whose parameter dtype is real.
\<close>

theorem identity_preconditioner_update:
  assumes "forward_and_backward env self = Inr (d, self')"
    and "preconditioner env = identity_preconditioner"
  shows "\<exists>g_neg g_pos l_grad.
     grad_neg self' = Some g_neg \<and> grad_pos self' = Some g_pos \<and>
     loss_grad self' = Some l_grad \<and>
     leaves l_grad = map2 (\<lambda>x y. map2 (\<lambda>a b. 2 * cnj (a - b)) x y) (leaves g_neg) (leaves g_pos) \<and>
     length (leaves d) = length (leaves l_grad) \<and>
     length (leaves (parameters env (state self'))) = length (leaves l_grad) \<and>
     (\<forall>k < length (leaves l_grad).
        leaves d ! k =
          (if fst (leaves (parameters env (state self')) ! k) = Complex then leaves l_grad ! k
           else array_real (leaves l_grad ! k)))"
proof -
  from forward_and_backward_Inr [OF assms(1)] obtain sigma_p mels secs l_grad where
    gn: "grad_neg self' = Some (avg_O env (reset env (state self)))" and
    gp: "grad_pos self' = Some (grad_local_value_rotated env (reset env (state self)) sigma_p mels secs)" and
    lg: "loss_grad self' = Some l_grad" and
    st: "state self' = reset env (state self)" and
    cg: "compose_grads (avg_O env (reset env (state self)))
           (grad_local_value_rotated env (reset env (state self)) sigma_p mels secs) = Inr l_grad" and
    rp: "real_projection (preconditioner env (reset env (state self)) l_grad)
           (parameters env (reset env (state self))) = Inr d"
    by auto
  let ?ps = "parameters env (state self')"
  from rp st assms(2)
  have tm: "tree_map2 (\<lambda>x target. if iscomplexobj target then x else array_real x) l_grad ?ps = Inr d"
    by (simp add: real_projection_def identity_preconditioner_def)
  note len = tree_map2_leaves(1) [OF tm] and lv = tree_map2_leaves(2) [OF tm]
  have l1: "leaves l_grad =
      map2 (\<lambda>x y. map2 (\<lambda>a b. 2 * cnj (a - b)) x y)
        (leaves (avg_O env (reset env (state self))))
        (leaves (grad_local_value_rotated env (reset env (state self)) sigma_p mels secs))"
    using tree_map2_leaves(2) [OF cg [unfolded compose_grads_def]] .
  have l2: "length (leaves d) = length (leaves l_grad)"
    using len lv by simp
  have l3: "\<forall>k < length (leaves l_grad).
        leaves d ! k =
          (if fst (leaves ?ps ! k) = Complex then leaves l_grad ! k
           else array_real (leaves l_grad ! k))"
    using len lv by (auto simp: iscomplexobj_def)
  show ?thesis
    by (intro exI conjI) (rule gn, rule gp, rule lg, rule l1, rule l2, rule len [symmetric], rule l3)
qed

theorem identity_preconditioner_update_witness:
  "preconditioner (example_env \<i>) = identity_preconditioner \<and>
   forward_and_backward (example_env \<i>) example_driver =
     Inr (Node [(''a'', Leaf [0]), (''b'', Leaf [- 2 * \<i>])],
          example_driver\<lparr>rng := 8,
            dp := Some (Node [(''a'', Leaf [0]), (''b'', Leaf [- 2 * \<i>])]),
            grad_neg := Some (Node [(''a'', Leaf [\<i>]), (''b'', Leaf [\<i>])]),
            sampled_indices := Some [0, 1],
            last_batch := Some ([[1], [- 1]], [1, 1], [0, 1, 2], 1),
            grad_pos := Some (Node [(''a'', Leaf [0]), (''b'', Leaf [0])]),
            loss_grad := Some (Node [(''a'', Leaf [- 2 * \<i>]), (''b'', Leaf [- 2 * \<i>])])\<rparr>) \<and>
   leaves (Node [(''a'', Leaf [0]), (''b'', Leaf [- 2 * \<i>])]) ! 0 = array_real [- 2 * \<i>] \<and>
   leaves (Node [(''a'', Leaf [0]), (''b'', Leaf [- 2 * \<i>])]) ! 1 = [- 2 * \<i>]"
proof -
  have p: "preconditioner (example_env \<i>) = identity_preconditioner"
    by (simp add: example_env_def)
  from identity_preconditioner_update [OF example_step p] example_step p
  show ?thesis by (simp add: array_real_def)
qed

text \<open>
  C6 as stated fails: at the small instance the preconditioner is the identity, the loss
  gradient is \<open>- 2 * \<i>\<close> on both leaves, and the update is \<open>0\<close> on the real leaf.
\<close>

theorem identity_preconditioner_counterexample:
  "preconditioner (example_env \<i>) = identity_preconditioner \<and>
   forward_and_backward (example_env \<i>) example_driver =
     Inr (Node [(''a'', Leaf [0]), (''b'', Leaf [- 2 * \<i>])],
          example_driver\<lparr>rng := 8,
            dp := Some (Node [(''a'', Leaf [0]), (''b'', Leaf [- 2 * \<i>])]),
            grad_neg := Some (Node [(''a'', Leaf [\<i>]), (''b'', Leaf [\<i>])]),
            sampled_indices := Some [0, 1],
            last_batch := Some ([[1], [- 1]], [1, 1], [0, 1, 2], 1),
            grad_pos := Some (Node [(''a'', Leaf [0]), (''b'', Leaf [0])]),
            loss_grad := Some (Node [(''a'', Leaf [- 2 * \<i>]), (''b'', Leaf [- 2 * \<i>])])\<rparr>) \<and>
   Node [(''a'', Leaf [0]), (''b'', Leaf [- 2 * \<i>])] \<noteq>
     Node [(''a'', Leaf [- 2 * \<i>]), (''b'', Leaf [- 2 * \<i>])]"
  using example_step by (simp add: example_env_def)

section \<open>The batch attributes and the negative log-likelihood\<close>

text \<open>
  C10. On a driver as \<^verbatim>\<open>__init__\<close> returns it, \<^verbatim>\<open>nll\<close> raises an attribute error: the
  batch attributes it reads do not exist yet. A training step that returns creates them,
  and \<^verbatim>\<open>nll\<close> then returns its value on that batch.
\<close>

theorem nll_before_first_step:
  assumes "qsr_init env get_conn local_size n_nodes rank entropy training_data batch_size vs seed = Inr self"
  shows "nll env self = Inl AttributeError \<and>
     (\<forall>d self'. forward_and_backward env self = Inr (d, self') \<longrightarrow>
        (\<exists>b. last_batch self' = Some b \<and> nll env self' = Inr (nll_value env (state self') b)))"
proof -
  from assms have "last_batch self = None"
    by (auto simp: qsr_init_def Let_def split: training_data.splits sum.splits prod.splits)
  then have "nll env self = Inl AttributeError" by (simp add: nll_def)
  moreover have "\<exists>b. last_batch self' = Some b \<and> nll env self' = Inr (nll_value env (state self') b)"
    if "forward_and_backward env self = Inr (d, self')" for d self'
    using forward_and_backward_Inr [OF that] by (auto simp: nll_def)
  ultimately show ?thesis by blast
qed

theorem nll_before_first_step_witness:
  "qsr_init (example_env \<i>) example_get_conn (\<lambda>U. 2) 1 0 0 example_data 2 example_parameters (Some 7)
     = Inr example_driver \<and>
   nll (example_env \<i>) example_driver = Inl AttributeError \<and>
   (\<exists>d self' b. forward_and_backward (example_env \<i>) example_driver = Inr (d, self') \<and>
      last_batch self' = Some b \<and>
      nll (example_env \<i>) self' = Inr (nll_value (example_env \<i>) (state self') b))"
  using nll_before_first_step [OF example_init [where g = \<i> and e = 0]]
    example_init [where g = \<i> and e = 0] example_step
  by auto

section \<open>Reproducible sampling\<close>

lemma run_same_indices:
  assumes "integers env1 = integers env2"
  shows "rng d1 = rng d2 \<Longrightarrow> training_samples_n d1 = training_samples_n d2 \<Longrightarrow>
     training_batch_size d1 = training_batch_size d2 \<Longrightarrow>
     run env1 n d1 = Inr (idxs1, d1') \<Longrightarrow> run env2 n d2 = Inr (idxs2, d2') \<Longrightarrow> idxs1 = idxs2"
proof (induction n arbitrary: d1 d2 idxs1 idxs2 d1' d2')
  case 0
  then show ?case by simp
next
  case (Suc n)
  from Suc.prems(4) obtain u1 s1 r1 i1 where
    f1: "forward_and_backward env1 d1 = Inr (u1, s1)" and
    r1: "run env1 n (s1\<lparr>state := update_parameters env1 u1 (state s1)\<rparr>) = Inr (r1, d1')" and
    i1: "sampled_indices s1 = Some i1" and e1: "idxs1 = i1 # r1"
    by (auto split: sum.splits prod.splits option.splits)
  from Suc.prems(5) obtain u2 s2 r2 i2 where
    f2: "forward_and_backward env2 d2 = Inr (u2, s2)" and
    r2: "run env2 n (s2\<lparr>state := update_parameters env2 u2 (state s2)\<rparr>) = Inr (r2, d2')" and
    i2: "sampled_indices s2 = Some i2" and e2: "idxs2 = i2 # r2"
    by (auto split: sum.splits prod.splits option.splits)
  from forward_and_backward_Inr [OF f1] obtain drawn1 g1 where
    a1: "integers env1 (rng d1) (training_samples_n d1) (training_batch_size d1) = Inr (drawn1, g1)"
    and b1: "rng s1 = g1" "sampled_indices s1 = Some (sort drawn1)"
      "training_samples_n s1 = training_samples_n d1" "training_batch_size s1 = training_batch_size d1"
    by auto
  from forward_and_backward_Inr [OF f2] obtain drawn2 g2 where
    a2: "integers env2 (rng d2) (training_samples_n d2) (training_batch_size d2) = Inr (drawn2, g2)"
    and b2: "rng s2 = g2" "sampled_indices s2 = Some (sort drawn2)"
      "training_samples_n s2 = training_samples_n d2" "training_batch_size s2 = training_batch_size d2"
    by auto
  from a1 a2 assms Suc.prems(1-3) have same: "drawn1 = drawn2" "g1 = g2" by auto
  have "r1 = r2"
    by (rule Suc.IH [OF _ _ _ r1 r2]) (use b1 b2 same Suc.prems(2,3) in auto)
  with i1 i2 b1 b2 same e1 e2 show ?case by simp
qed

lemma convert_step_secs_length:
  "convert_step get_conn N i sigma U st = Inr st' \<Longrightarrow> length (cs_secs st') = length (cs_secs st)"
  by (auto simp: convert_step_def Let_def split: sum.splits)

lemma convert_loop_secs_length:
  "convert_loop get_conn N i ps st = Inr st' \<Longrightarrow> length (cs_secs st') = length (cs_secs st)"
proof (induction get_conn N i ps st rule: convert_loop.induct)
  case (2 get_conn N i sigma U rest st)
  then show ?case by (auto split: sum.splits dest: convert_step_secs_length)
qed auto

lemma convert_data_secs_length:
  assumes "convert_data get_conn local_size N sigma_s Us = Inr (sigma_p, mels, secs, MAX_LEN)"
  shows "length secs = length sigma_s + 1"
  using assms unfolding convert_data_def Let_def
  by (auto split: sum.splits basis.splits dest!: convert_loop_secs_length)

lemma qsr_init_fields:
  assumes "qsr_init env get_conn local_size n_nodes rk entropy (Data N sigma_s Us) batch_size vs seed
             = Inr self"
  shows "rng self = default_rng env (mpi_split env (PRNGKey env entropy seed) n_nodes rk)"
    and "training_batch_size self = batch_size"
    and "training_samples_n self = int (length sigma_s)"
  using assms unfolding qsr_init_def Let_def
  by (auto split: sum.splits prod.splits dest!: convert_data_secs_length)

text \<open>
  C8. Two drivers constructed with the same seed, the same number of workers and the same
  rank on the same training data and batch size, and run for the same number of steps,
  sample the same index arrays step after step. Everything else may differ between the
  runs: the variational state, the model and its gradients, the preconditioner, the
  optimizer, the connected configurations, and the entropy of the process, which is read
  only when no seed is given.
\<close>

theorem sampling_reproducible:
  assumes "jax_PRNGKey env1 = jax_PRNGKey env2" and "mpi_split env1 = mpi_split env2"
    and "default_rng env1 = default_rng env2" and "integers env1 = integers env2"
    and "qsr_init env1 get_conn1 local_size1 n_nodes rk entropy1 (Data N sigma_s Us) batch_size
           vs1 (Some seed) = Inr self1"
    and "qsr_init env2 get_conn2 local_size2 n_nodes rk entropy2 (Data N sigma_s Us) batch_size
           vs2 (Some seed) = Inr self2"
    and "run env1 n_iter self1 = Inr (idxs1, end1)"
    and "run env2 n_iter self2 = Inr (idxs2, end2)"
  shows "idxs1 = idxs2"
proof (rule run_same_indices [OF assms(4) _ _ _ assms(7) assms(8)])
  show "rng self1 = rng self2"
    using qsr_init_fields(1) [OF assms(5)] qsr_init_fields(1) [OF assms(6)] assms(1-3)
    by (simp add: PRNGKey_def)
  show "training_samples_n self1 = training_samples_n self2"
    using qsr_init_fields(3) [OF assms(5)] qsr_init_fields(3) [OF assms(6)] by simp
  show "training_batch_size self1 = training_batch_size self2"
    using qsr_init_fields(2) [OF assms(5)] qsr_init_fields(2) [OF assms(6)] by simp
qed

theorem sampling_reproducible_witness:
  "jax_PRNGKey (example_env \<i>) = jax_PRNGKey (example_env 1) \<and>
   mpi_split (example_env \<i>) = mpi_split (example_env 1) \<and>
   default_rng (example_env \<i>) = default_rng (example_env 1) \<and>
   integers (example_env \<i>) = integers (example_env 1) \<and>
   qsr_init (example_env \<i>) example_get_conn (\<lambda>U. 2) 1 0 3 example_data 2 example_parameters (Some 7)
     = Inr example_driver \<and>
   qsr_init (example_env 1) example_get_conn (\<lambda>U. 2) 1 0 5 example_data 2 example_parameters (Some 7)
     = Inr example_driver \<and>
   map_sum id fst (run (example_env \<i>) (Suc (Suc 0)) example_driver) = Inr [[0, 1], [0, 1]] \<and>
   map_sum id fst (run (example_env 1) (Suc (Suc 0)) example_driver) = Inr [[0, 1], [0, 1]]"
proof -
  have e: "jax_PRNGKey (example_env \<i>) = jax_PRNGKey (example_env 1)"
    "mpi_split (example_env \<i>) = mpi_split (example_env 1)"
    "default_rng (example_env \<i>) = default_rng (example_env 1)"
    "integers (example_env \<i>) = integers (example_env 1)"
    by (simp_all add: example_env_def)
  obtain idxs1 end1 where r1: "run (example_env \<i>) (Suc (Suc 0)) example_driver = Inr (idxs1, end1)"
    using example_run [of \<i>] by (cases "run (example_env \<i>) (Suc (Suc 0)) example_driver") auto
  obtain idxs2 end2 where r2: "run (example_env 1) (Suc (Suc 0)) example_driver = Inr (idxs2, end2)"
    using example_run [of 1] by (cases "run (example_env 1) (Suc (Suc 0)) example_driver") auto
  have "idxs1 = idxs2"
    using sampling_reproducible [OF e example_init [unfolded example_data_def]
        example_init [unfolded example_data_def] r1 r2] .
  with r1 r2 example_run [of \<i>] example_run [of 1] e example_init show ?thesis by simp
qed

section \<open>Dataset conversion: offsets and padding\<close>

lemma resize_grow:
  "length xs = nat l \<Longrightarrow> 0 \<le> l \<Longrightarrow> 0 \<le> n \<Longrightarrow> resize xs (l + n) z = xs @ replicate (nat n) z"
  by (simp add: resize_def nat_add_distrib)

lemma py_set_slice_tail:
  "length ys = n \<Longrightarrow> py_set_slice (xs @ replicate n z) (int (length xs)) (int (length xs + n)) ys
     = Inr (xs @ ys)"
  by (simp add: py_set_slice_def slice_bound_def Let_def nat_int_add)

lemma convert_step_closed:
  assumes "length (cs_sigma_p st) = nat (cs_last_i st)" "length (cs_mels st) = nat (cs_last_i st)"
    "0 \<le> cs_last_i st"
  shows "convert_step get_conn N i sigma U st =
     Inr \<lparr>cs_sigma_p = cs_sigma_p st @ map fst (get_conn U sigma),
          cs_mels = cs_mels st @ map snd (get_conn U sigma),
          cs_secs = (cs_secs st)[i := cs_last_i st],
          cs_MAX_LEN = max (int (length (get_conn U sigma))) (cs_MAX_LEN st),
          cs_last_i = cs_last_i st + int (length (get_conn U sigma)),
          cs_Nc = int (length (get_conn U sigma))\<rparr>"
proof -
  let ?n = "length (get_conn U sigma)"
  have l: "cs_last_i st = int (length (cs_sigma_p st))" "cs_last_i st = int (length (cs_mels st))"
    using assms by simp_all
  have r1: "resize (cs_sigma_p st) (cs_last_i st + int ?n) (replicate N 0)
      = cs_sigma_p st @ replicate ?n (replicate N 0)"
    using resize_grow [OF assms(1) assms(3), of "int ?n"] by simp
  have r2: "resize (cs_mels st) (cs_last_i st + int ?n) 0 = cs_mels st @ replicate ?n 0"
    using resize_grow [OF assms(2) assms(3), of "int ?n"] by simp
  have s1: "py_set_slice (cs_sigma_p st @ replicate ?n (replicate N 0)) (cs_last_i st)
      (int (length (cs_sigma_p st @ replicate ?n (replicate N 0)))) (map fst (get_conn U sigma))
      = Inr (cs_sigma_p st @ map fst (get_conn U sigma))"
    using py_set_slice_tail [of "map fst (get_conn U sigma)" ?n "cs_sigma_p st" "replicate N 0"] l(1)
    by simp
  have s2: "py_set_slice (cs_mels st @ replicate ?n 0) (cs_last_i st)
      (int (length (cs_mels st @ replicate ?n 0))) (map snd (get_conn U sigma))
      = Inr (cs_mels st @ map snd (get_conn U sigma))"
    using py_set_slice_tail [of "map snd (get_conn U sigma)" ?n "cs_mels st" 0] l(2)
    by simp
  show ?thesis
    unfolding convert_step_def Let_def length_map r1 r2 s1 s2 by simp
qed


lemma convert_loop_closed:
  assumes "convert_loop get_conn N i ps st = Inr st'"
    and "length (cs_sigma_p st) = nat (cs_last_i st)"
    and "length (cs_mels st) = nat (cs_last_i st)"
    and "0 \<le> cs_last_i st"
  shows "cs_sigma_p st' = cs_sigma_p st @ concat (map (\<lambda>p. map fst (conn_of get_conn p)) ps) \<and>
     cs_mels st' = cs_mels st @ concat (map (\<lambda>p. map snd (conn_of get_conn p)) ps) \<and>
     cs_last_i st' = cs_last_i st + sum_list (seg_counts get_conn ps) \<and>
     cs_MAX_LEN st' = fold max (seg_counts get_conn ps) (cs_MAX_LEN st) \<and>
     cs_Nc st' = (if ps = [] then cs_Nc st else last (seg_counts get_conn ps)) \<and>
     length (cs_secs st') = length (cs_secs st) \<and>
     (\<forall>j < length (cs_secs st).
        cs_secs st' ! j =
          (if i \<le> j \<and> j < i + length ps
           then cs_last_i st + sum_list (take (j - i) (seg_counts get_conn ps))
           else cs_secs st ! j))"
  using assms
proof (induction ps arbitrary: i st)
  case Nil
  then show ?case by (simp add: seg_counts_def)
next
  case (Cons p rest)
  obtain sigma b where p: "p = (sigma, b)" by (cases p)
  from Cons.prems(1) p obtain U where b: "b = Op U"
    by (cases b) auto
  let ?c = "get_conn U sigma"
  let ?st1 = "\<lparr>cs_sigma_p = cs_sigma_p st @ map fst ?c,
          cs_mels = cs_mels st @ map snd ?c,
          cs_secs = (cs_secs st)[i := cs_last_i st],
          cs_MAX_LEN = max (int (length ?c)) (cs_MAX_LEN st),
          cs_last_i = cs_last_i st + int (length ?c),
          cs_Nc = int (length ?c)\<rparr>"
  have step: "convert_step get_conn N i sigma U st = Inr ?st1"
    by (rule convert_step_closed [OF Cons.prems(2-4)])
  with Cons.prems(1) p b have loop: "convert_loop get_conn N (Suc i) rest ?st1 = Inr st'"
    by simp
  have inv: "length (cs_sigma_p ?st1) = nat (cs_last_i ?st1)"
    "length (cs_mels ?st1) = nat (cs_last_i ?st1)" "0 \<le> cs_last_i ?st1"
    using Cons.prems(2-4) by (simp_all add: nat_add_distrib)
  note IH = Cons.IH [OF loop inv]
  have c: "conn_of get_conn p = ?c" by (simp add: conn_of_def p b)
  have sc: "seg_counts get_conn (p # rest) = int (length ?c) # seg_counts get_conn rest"
    by (simp add: seg_counts_def c)
  have secs: "cs_secs st' ! j =
          (if i \<le> j \<and> j < i + length (p # rest)
           then cs_last_i st + sum_list (take (j - i) (seg_counts get_conn (p # rest)))
           else cs_secs st ! j)" if j: "j < length (cs_secs st)" for j
  proof -
    from IH j have e: "cs_secs st' ! j =
          (if Suc i \<le> j \<and> j < Suc i + length rest
           then cs_last_i ?st1 + sum_list (take (j - Suc i) (seg_counts get_conn rest))
           else cs_secs ?st1 ! j)" by simp
    show ?thesis
    proof (cases "j = i")
      case True
      with e j show ?thesis by simp
    next
      case False
      show ?thesis
      proof (cases "Suc i \<le> j \<and> j < Suc i + length rest")
        case True
        then obtain m where m: "j - i = Suc m" "j - Suc i = m" by (cases "j - i") auto
        with e True show ?thesis by (simp add: sc)
      next
        case False
        with \<open>j \<noteq> i\<close> e show ?thesis by auto
      qed
    qed
  qed
  from IH have rest_facts:
    "cs_sigma_p st' = cs_sigma_p ?st1 @ concat (map (\<lambda>p. map fst (conn_of get_conn p)) rest)"
    "cs_mels st' = cs_mels ?st1 @ concat (map (\<lambda>p. map snd (conn_of get_conn p)) rest)"
    "cs_last_i st' = cs_last_i ?st1 + sum_list (seg_counts get_conn rest)"
    "cs_MAX_LEN st' = fold max (seg_counts get_conn rest) (cs_MAX_LEN ?st1)"
    "cs_Nc st' = (if rest = [] then cs_Nc ?st1 else last (seg_counts get_conn rest))"
    "length (cs_secs st') = length (cs_secs ?st1)"
    by blast+
  have "seg_counts get_conn rest = [] \<longleftrightarrow> rest = []"
    by (simp add: seg_counts_def)
  then have "cs_Nc st' = last (seg_counts get_conn (p # rest))"
    using rest_facts(5) by (simp add: sc)
  with rest_facts secs show ?case
    by (simp add: c sc)
qed


lemma py_fill_from_padded:
  "int (length ys) \<le> a \<Longrightarrow> py_fill_from (ys @ replicate m z) a z = ys @ replicate m z"
proof -
  assume a: "int (length ys) \<le> a"
  define s where "s = slice_bound (length (ys @ replicate m z)) a"
  have s: "length ys \<le> s" "s \<le> length ys + m"
    using a by (auto simp: s_def slice_bound_def)
  have "take s (ys @ replicate m z) @ replicate (length (ys @ replicate m z) - s) z
      = ys @ replicate (s - length ys) z @ replicate (length ys + m - s) z"
    using s by (auto simp: min_def)
  also have "\<dots> = ys @ replicate m z"
    using s by (simp add: replicate_add [symmetric])
  finally show ?thesis
    by (simp add: py_fill_from_def Let_def s_def)
qed

lemma fold_max_ge_init: "(a::int) \<le> fold max xs a"
proof (induction xs arbitrary: a)
  case (Cons x xs)
  have "a \<le> max x a" by simp
  also have "\<dots> \<le> fold max xs (max x a)" by (rule Cons.IH)
  finally show ?case by simp
qed simp

lemma fold_max_ge_elem: "x \<in> set xs \<Longrightarrow> (x::int) \<le> fold max xs a"
proof (induction xs arbitrary: a)
  case (Cons y ys)
  show ?case
  proof (cases "x = y")
    case True
    have "x \<le> max y a" using True by simp
    also have "\<dots> \<le> fold max ys (max y a)" by (rule fold_max_ge_init)
    finally show ?thesis by simp
  next
    case False
    with Cons.prems have "x \<in> set ys" by simp
    from Cons.IH [OF this] show ?thesis by simp
  qed
qed simp

lemma seg_counts_nonneg: "c \<in> set (seg_counts get_conn ps) \<Longrightarrow> 0 \<le> c"
  by (auto simp: seg_counts_def)

lemma sum_list_seg_counts_nonneg: "0 \<le> sum_list (seg_counts get_conn ps)"
  by (rule sum_list_nonneg) (rule seg_counts_nonneg)

lemma length_concat_conn:
  "int (length (concat (map (\<lambda>p. map f (conn_of get_conn p)) ps))) = sum_list (seg_counts get_conn ps)"
  by (induction ps) (simp_all add: seg_counts_def)

lemma convert_data_closed:
  assumes conv: "convert_data get_conn local_size N sigma_s Us0 = Inr (sigma_p, mels, secs, MAX_LEN)"
    and chk: "check_bases_type Us0 = Inr Us"
  shows "MAX_LEN = fold max (seg_counts get_conn (zip sigma_s Us)) 0"
    and "mels = concat (map (\<lambda>p. map snd (conn_of get_conn p)) (zip sigma_s Us)) @
                  replicate (nat MAX_LEN) 0"
    and "sigma_p = concat (map (\<lambda>p. map fst (conn_of get_conn p)) (zip sigma_s Us)) @
                  replicate (nat MAX_LEN) (replicate N 0)"
    and "length secs = length sigma_s + 1"
    and "last secs = sum_list (seg_counts get_conn (zip sigma_s Us))"
    and "length sigma_s \<le> length Us \<Longrightarrow>
           secs = map (\<lambda>j. sum_list (take j (seg_counts get_conn (zip sigma_s Us))))
                    [0..<Suc (length sigma_s)]"
proof -
  let ?ps = "zip sigma_s Us"
  let ?counts = "seg_counts get_conn ?ps"
  from conv chk obtain U0 where U0: "hd Us = Op U0"
    by (auto simp: convert_data_def split: basis.splits)
  let ?st0 = "\<lparr>cs_sigma_p = [], cs_mels = [],
                 cs_secs = replicate (length sigma_s + 1) 0, cs_MAX_LEN = 0,
                 cs_last_i = 0, cs_Nc = int (local_size U0)\<rparr> :: ('a, 'b) conv_state"
  obtain st where loop: "convert_loop get_conn N 0 ?ps ?st0 = Inr st"
    using conv chk U0
    by (cases "convert_loop get_conn N 0 ?ps ?st0") (simp_all add: convert_data_def Let_def)
  from conv have out0:
      "py_fill_from (resize (cs_sigma_p st) (cs_last_i st + cs_MAX_LEN st) (replicate N 0))
                      (cs_last_i st + cs_Nc st) (replicate N 0) = sigma_p"
      "py_fill_from (resize (cs_mels st) (cs_last_i st + cs_MAX_LEN st) 0)
                      (cs_last_i st + cs_Nc st) 0 = mels"
      "(cs_secs st)[length (cs_secs st) - 1 := cs_last_i st] = secs"
      "cs_MAX_LEN st = MAX_LEN"
    unfolding convert_data_def Let_def chk sum.case U0 basis.case loop
    by blast+
  note out = out0 [symmetric]
  have cl: "cs_sigma_p st = concat (map (\<lambda>p. map fst (conn_of get_conn p)) ?ps)"
    "cs_mels st = concat (map (\<lambda>p. map snd (conn_of get_conn p)) ?ps)"
    "cs_last_i st = sum_list ?counts"
    "cs_MAX_LEN st = fold max ?counts 0"
    "cs_Nc st = (if ?ps = [] then int (local_size U0) else last ?counts)"
    "length (cs_secs st) = length sigma_s + 1"
    "\<forall>j < length sigma_s + 1. cs_secs st ! j =
        (if j < length ?ps then sum_list (take j ?counts) else 0)"
    using convert_loop_closed [OF loop] by (simp_all add: nth_Cons')
  have T: "0 \<le> cs_last_i st" unfolding cl(3) by (rule sum_list_seg_counts_nonneg)
  have M: "0 \<le> cs_MAX_LEN st" unfolding cl(4) by (rule fold_max_ge_init)
  have Nc: "0 \<le> cs_Nc st"
  proof (cases "?ps = []")
    case True
    then show ?thesis by (simp add: cl(5))
  next
    case False
    then have "?counts \<noteq> []" by (simp add: seg_counts_def)
    then have "last ?counts \<in> set ?counts" by (rule last_in_set)
    then have "0 \<le> last ?counts" by (rule seg_counts_nonneg)
    with False show ?thesis by (simp add: cl(5))
  qed
  have "int (length (cs_mels st)) = cs_last_i st" "int (length (cs_sigma_p st)) = cs_last_i st"
    unfolding cl(1,2,3) by (rule length_concat_conn)+
  then have lens: "length (cs_mels st) = nat (cs_last_i st)"
    "length (cs_sigma_p st) = nat (cs_last_i st)"
    by linarith+
  show "MAX_LEN = fold max ?counts 0" using out(4) cl(4) by simp
  have "mels = cs_mels st @ replicate (nat (cs_MAX_LEN st)) 0"
    unfolding out(2) resize_grow [OF lens(1) T M]
    by (rule py_fill_from_padded) (use lens(1) T Nc in simp)
  then show "mels = concat (map (\<lambda>p. map snd (conn_of get_conn p)) ?ps) @ replicate (nat MAX_LEN) 0"
    by (simp add: cl(2) out(4))
  have "sigma_p = cs_sigma_p st @ replicate (nat (cs_MAX_LEN st)) (replicate N 0)"
    unfolding out(1) resize_grow [OF lens(2) T M]
    by (rule py_fill_from_padded) (use lens(2) T Nc in simp)
  then show "sigma_p = concat (map (\<lambda>p. map fst (conn_of get_conn p)) ?ps) @
                  replicate (nat MAX_LEN) (replicate N 0)"
    by (simp add: cl(1) out(4))
  show len: "length secs = length sigma_s + 1" using out(3) cl(6) by simp
  have "secs \<noteq> []" using len by auto
  then have "last secs = secs ! (length secs - 1)" by (rule last_conv_nth)
  also have "\<dots> = cs_last_i st" unfolding len unfolding out(3) using cl(6) by simp
  finally show "last secs = sum_list ?counts" by (simp add: cl(3))
  show "secs = map (\<lambda>j. sum_list (take j ?counts)) [0..<Suc (length sigma_s)]"
    if cover: "length sigma_s \<le> length Us"
  proof (rule nth_equalityI)
    show "length secs = length (map (\<lambda>j. sum_list (take j ?counts)) [0..<Suc (length sigma_s)])"
      using len by simp
  next
    fix j assume "j < length secs"
    with len have j: "j < length sigma_s + 1" by simp
    have lp: "length ?ps = length sigma_s" using cover by simp
    have lc: "length ?counts = length sigma_s" using lp by (simp add: seg_counts_def)
    show "secs ! j = map (\<lambda>j. sum_list (take j ?counts)) [0..<Suc (length sigma_s)] ! j"
    proof (cases "j = length sigma_s")
      case True
      then have "secs ! j = cs_last_i st" using out(3) cl(6) by simp
      with True lc cl(3) j show ?thesis by (simp del: upt_Suc)
    next
      case False
      with j have jl: "j < length sigma_s" by simp
      then have "secs ! j = cs_secs st ! j" using out(3) cl(6) by simp
      also have "\<dots> = sum_list (take j ?counts)" using cl(7) jl cover by simp
      finally show ?thesis using j by (simp del: upt_Suc)
    qed
  qed
qed


lemma prefix_sums_step:
  "j < length (cs::int list) \<Longrightarrow> sum_list (take (Suc j) cs) = sum_list (take j cs) + cs ! j"
  by (simp add: take_Suc_conv_app_nth)

lemma prefix_sums_segmented:
  fixes counts :: "int list"
  assumes nonneg: "\<And>c. c \<in> set counts \<Longrightarrow> 0 \<le> c"
    and bound: "\<And>c. c \<in> set counts \<Longrightarrow> c \<le> M"
    and secs: "secs = map (\<lambda>j. sum_list (take j counts)) [0..<Suc (length counts)]"
  shows "secs \<noteq> []" and "hd secs = 0" and "sorted secs"
    and "list_all (\<lambda>(a, b). b - a \<le> M) (zip secs (tl secs))"
proof -
  have len: "length secs = Suc (length counts)" by (simp add: secs)
  have nth: "secs ! j = sum_list (take j counts)" if "j \<le> length counts" for j
    using that unfolding secs by (simp del: upt_Suc add: less_Suc_eq_le)
  have step: "secs ! Suc j = secs ! j + counts ! j" if "j < length counts" for j
    using that nth [of j] nth [of "Suc j"] by (simp add: prefix_sums_step)
  show "secs \<noteq> []" using len by auto
  then show "hd secs = 0" using nth [of 0] by (simp add: hd_conv_nth)
  show "sorted secs"
    unfolding sorted_iff_nth_Suc
  proof (intro allI impI)
    fix j assume "Suc j < length secs"
    then have j: "j < length counts" using len by simp
    then have "0 \<le> counts ! j" by (intro nonneg nth_mem)
    with step [OF j] show "secs ! j \<le> secs ! Suc j" by simp
  qed
  show "list_all (\<lambda>(a, b). b - a \<le> M) (zip secs (tl secs))"
    unfolding list_all_length
  proof (intro allI impI)
    fix j assume "j < length (zip secs (tl secs))"
    then have j: "j < length counts" using len by simp
    then have "counts ! j \<le> M" by (intro bound nth_mem)
    moreover have "zip secs (tl secs) ! j = (secs ! j, secs ! Suc j)"
      using j len by (simp add: nth_tl)
    ultimately show "case zip secs (tl secs) ! j of (a, b) \<Rightarrow> b - a \<le> M"
      using step [OF j] by simp
  qed
qed

lemma convert_data_invariant:
  assumes conv: "convert_data get_conn local_size N sigma_s Us0 = Inr (sigma_p, mels, secs, MAX_LEN)"
    and chk: "check_bases_type Us0 = Inr Us"
    and cover: "length sigma_s \<le> length Us"
  shows "secs ! 0 = 0" and "sorted secs"
    and "last secs = sum_list (seg_counts get_conn (zip sigma_s Us))"
    and "int (length mels) = last secs + MAX_LEN"
    and "int (length sigma_p) = last secs + MAX_LEN"
    and "\<forall>k. nat (last secs) \<le> k \<and> k < length mels \<longrightarrow> mels ! k = 0"
    and "segmented sigma_p mels secs MAX_LEN"
proof -
  let ?ps = "zip sigma_s Us"
  let ?counts = "seg_counts get_conn ?ps"
  note cl = convert_data_closed [OF conv chk]
  have lc: "length ?counts = length sigma_s" using cover by (simp add: seg_counts_def)
  have secs: "secs = map (\<lambda>j. sum_list (take j ?counts)) [0..<Suc (length ?counts)]"
    using cl(6) [OF cover] lc by simp
  have M: "0 \<le> MAX_LEN" unfolding cl(1) by (rule fold_max_ge_init)
  have bound: "c \<le> MAX_LEN" if "c \<in> set ?counts" for c
    unfolding cl(1) using that by (rule fold_max_ge_elem)
  have nonneg: "0 \<le> c" if "c \<in> set ?counts" for c
    using that by (rule seg_counts_nonneg)
  note ps = prefix_sums_segmented [OF nonneg bound secs]
  show "secs ! 0 = 0" using ps(1,2) by (simp add: hd_conv_nth)
  show "sorted secs" by (rule ps(3))
  show last: "last secs = sum_list ?counts" by (rule cl(5))
  have T: "0 \<le> last secs" unfolding last by (rule sum_list_seg_counts_nonneg)
  have lm: "int (length (concat (map (\<lambda>p. map snd (conn_of get_conn p)) ?ps))) = last secs"
    unfolding last by (rule length_concat_conn)
  have ls: "int (length (concat (map (\<lambda>p. map fst (conn_of get_conn p)) ?ps))) = last secs"
    unfolding last by (rule length_concat_conn)
  show m: "int (length mels) = last secs + MAX_LEN"
    using lm M by (subst cl(2)) simp
  show s: "int (length sigma_p) = last secs + MAX_LEN"
    using ls M by (subst cl(3)) simp
  show "\<forall>k. nat (last secs) \<le> k \<and> k < length mels \<longrightarrow> mels ! k = 0"
  proof (intro allI impI)
    fix k assume k: "nat (last secs) \<le> k \<and> k < length mels"
    have l: "length (concat (map (\<lambda>p. map snd (conn_of get_conn p)) ?ps)) = nat (last secs)"
      using lm by linarith
    from k m M T have "k - nat (last secs) < nat MAX_LEN" by linarith
    with k l show "mels ! k = 0"
      by (subst cl(2)) (simp add: nth_append)
  qed
  show "segmented sigma_p mels secs MAX_LEN"
    unfolding segmented_def using ps M m s T by simp
qed

text \<open>
  C1. The claim fails on a dataset that the conversion accepts: with three samples and two
  bases the loop runs twice, the third offset keeps its initial zero, and the returned
  offsets \<open>[0, 1, 0, 2]\<close> decrease. The lemma above is the claim for every dataset whose
  bases cover all samples.
\<close>

theorem convert_data_fewer_bases:
  "convert_data example_get_conn (\<lambda>U. 2) 1 [[1], [- 1], [1]] (Bases [Str ''Z'', Str ''Z''])
     = Inr ([[1], [- 1], [0]], [1, 1, 0], [0, 1, 0, 2], 1) \<and>
   \<not> sorted [0, 1, 0, 2 :: int]"
  by (simp add: convert_data_def check_bases_type_def build_rotation_def convert_step_def
      resize_def py_set_slice_def slice_bound_def py_fill_from_def example_get_conn_def Let_def)

text \<open>
  C4. The conversion does not fail when the leading lengths differ: with fewer bases than
  samples and with more bases than samples it returns a dataset.
\<close>

theorem convert_data_length_mismatch_accepted:
  "length [[1], [- 1], [1 :: int]] \<noteq> length [Str ''Z'', Str ''Z'' :: unit basis] \<and>
   isl (convert_data example_get_conn (\<lambda>U. 2) 1 [[1], [- 1], [1]] (Bases [Str ''Z'', Str ''Z'']))
     = False \<and>
   length [[1], [- 1 :: int]] \<noteq> length [Str ''Z'', Str ''Z'', Str ''Z'' :: unit basis] \<and>
   convert_data example_get_conn (\<lambda>U. 2) 1 [[1], [- 1]] (Bases [Str ''Z'', Str ''Z'', Str ''Z''])
     = Inr ([[1], [- 1], [0]], [1, 1, 0], [0, 1, 2], 1)"
  by (simp add: convert_data_def check_bases_type_def build_rotation_def convert_step_def
      resize_def py_set_slice_def slice_bound_def py_fill_from_def example_get_conn_def Let_def)

section \<open>Batch composition: copied segments and buffer length\<close>

lemma segmentedD:
  assumes "segmented sigma_p mels secs MAX_LEN" and "Suc j < length secs"
  shows "0 \<le> secs ! j" and "secs ! j \<le> secs ! Suc j" and "secs ! Suc j - secs ! j \<le> MAX_LEN"
    and "secs ! Suc j \<le> int (length mels)" and "secs ! Suc j \<le> int (length sigma_p)"
proof -
  from assms(1) have ne: "secs \<noteq> []" and hd: "hd secs = 0" and so: "sorted secs"
    and la: "list_all (\<lambda>(a, b). b - a \<le> MAX_LEN) (zip secs (tl secs))"
    and l1: "last secs \<le> int (length sigma_p)" and l2: "last secs \<le> int (length mels)"
    unfolding segmented_def by blast+
  have "secs ! 0 \<le> secs ! j"
    by (rule sorted_nth_mono [OF so]) (use assms(2) in simp_all)
  then show "0 \<le> secs ! j" using hd hd_conv_nth [OF ne] by simp
  show "secs ! j \<le> secs ! Suc j"
    by (rule sorted_nth_mono [OF so]) (use assms(2) in simp_all)
  have jl: "j < length (zip secs (tl secs))" using assms(2) by simp
  from la have "\<forall>n < length (zip secs (tl secs)).
      (\<lambda>(a, b). b - a \<le> MAX_LEN) (zip secs (tl secs) ! n)"
    unfolding list_all_length .
  from this [rule_format, OF jl]
  have "(\<lambda>(a, b). b - a \<le> MAX_LEN) (zip secs (tl secs) ! j)" .
  moreover have "zip secs (tl secs) ! j = (secs ! j, secs ! Suc j)"
    using assms(2) by (simp add: nth_tl)
  ultimately show "secs ! Suc j - secs ! j \<le> MAX_LEN" by simp
  have "secs ! Suc j \<le> secs ! (length secs - 1)"
    by (rule sorted_nth_mono [OF so]) (use assms(2) in simp_all)
  then have "secs ! Suc j \<le> last secs" using last_conv_nth [OF ne] by simp
  then show "secs ! Suc j \<le> int (length mels)" "secs ! Suc j \<le> int (length sigma_p)"
    using l1 l2 by simp_all
qed


lemma segment_in_range:
  assumes "0 \<le> secs ! j" and "secs ! j \<le> secs ! Suc j" and "secs ! Suc j \<le> int (length xs)"
  shows "segment xs secs j = take (nat (secs ! Suc j - secs ! j)) (drop (nat (secs ! j)) xs)"
    and "int (length (segment xs secs j)) = secs ! Suc j - secs ! j"
proof -
  have "slice_bound (length xs) (secs ! j) = nat (secs ! j)"
    "slice_bound (length xs) (secs ! Suc j) = nat (secs ! Suc j)"
    using assms by (simp_all add: slice_bound_def)
  then show "segment xs secs j = take (nat (secs ! Suc j - secs ! j)) (drop (nat (secs ! j)) xs)"
    using assms by (simp add: segment_def py_slice_def Let_def nat_diff_distrib)
  then show "int (length (segment xs secs j)) = secs ! Suc j - secs ! j"
    using assms by simp
qed

lemma py_get_valid:
  assumes "0 \<le> i" and "i < int (length secs) - 1"
  shows "py_get secs i = Inr (secs ! nat i)" and "py_get secs (i + 1) = Inr (secs ! Suc (nat i))"
  using assms by (simp_all add: py_get_def nat_add_distrib)

lemma py_set_slice_inside:
  assumes "L + length ys \<le> length xs"
  shows "py_set_slice xs (int L) (int L + int (length ys)) ys
     = Inr (take L xs @ ys @ drop (L + length ys) xs)"
proof -
  have "slice_bound (length xs) (int L) = L"
    "slice_bound (length xs) (int L + int (length ys)) = L + length ys"
    using assms by (simp_all add: slice_bound_def nat_add_distrib)
  then show ?thesis by (simp add: py_set_slice_def Let_def)
qed

lemma compose_step_closed:
  assumes seg: "segmented sigma_p mels secs MAX_LEN"
    and i: "0 \<le> i" "i < int (length secs) - 1"
    and L: "b_last_i st = int L"
    and room: "L + length (segment mels secs (nat i)) \<le> length (b_mels st)"
      "length (b_sigma_p st) = length (b_mels st)"
  shows "compose_step sigma_p mels secs n i st =
     Inr \<lparr>b_sigma_p = take L (b_sigma_p st) @ segment sigma_p secs (nat i) @
                        drop (L + length (segment mels secs (nat i))) (b_sigma_p st),
          b_mels = take L (b_mels st) @ segment mels secs (nat i) @
                        drop (L + length (segment mels secs (nat i))) (b_mels st),
          b_secs = (b_secs st)[n + 1 := int (L + length (segment mels secs (nat i)))],
          b_maxlen = max (b_maxlen st) (int (length (segment mels secs (nat i)))),
          b_last_i = int (L + length (segment mels secs (nat i)))\<rparr>"
    and "length (segment sigma_p secs (nat i)) = length (segment mels secs (nat i))"
    and "int (length (segment mels secs (nat i))) \<le> MAX_LEN"
proof -
  let ?j = "nat i"
  have j: "Suc ?j < length secs" using i by linarith
  note d = segmentedD [OF seg j]
  note sm = segment_in_range [OF d(1) d(2) d(4)]
  note ss = segment_in_range [OF d(1) d(2) d(5)]
  let ?k = "length (segment mels secs ?j)"
  have k: "int ?k = secs ! Suc ?j - secs ! ?j" by (rule sm(2))
  show eq: "length (segment sigma_p secs ?j) = ?k"
    using ss(2) sm(2) by linarith
  show "int ?k \<le> MAX_LEN" using k d(3) by simp
  have g: "py_get secs i = Inr (secs ! ?j)" "py_get secs (i + 1) = Inr (secs ! Suc ?j)"
    by (rule py_get_valid [OF i])+
  have sl: "py_slice sigma_p (secs ! ?j) (secs ! Suc ?j) = segment sigma_p secs ?j"
    "py_slice mels (secs ! ?j) (secs ! Suc ?j) = segment mels secs ?j"
    by (simp_all add: segment_def)
  have w1: "py_set_slice (b_sigma_p st) (int L) (int L + int ?k) (segment sigma_p secs ?j)
      = Inr (take L (b_sigma_p st) @ segment sigma_p secs ?j @ drop (L + ?k) (b_sigma_p st))"
    using py_set_slice_inside [of L "segment sigma_p secs ?j" "b_sigma_p st"] room eq by simp
  have w2: "py_set_slice (b_mels st) (int L) (int L + int ?k) (segment mels secs ?j)
      = Inr (take L (b_mels st) @ segment mels secs ?j @ drop (L + ?k) (b_mels st))"
    using py_set_slice_inside [of L "segment mels secs ?j" "b_mels st"] room by simp
  show "compose_step sigma_p mels secs n i st =
     Inr \<lparr>b_sigma_p = take L (b_sigma_p st) @ segment sigma_p secs ?j @
                        drop (L + ?k) (b_sigma_p st),
          b_mels = take L (b_mels st) @ segment mels secs ?j @ drop (L + ?k) (b_mels st),
          b_secs = (b_secs st)[n + 1 := int (L + ?k)],
          b_maxlen = max (b_maxlen st) (int ?k),
          b_last_i = int (L + ?k)\<rparr>"
    unfolding compose_step_def g sum.case Let_def sl L k [symmetric] w1 w2
    by simp
qed


lemma splice_facts:
  assumes "L + k \<le> length buf" and "length seg = k"
  shows "take (L + k) (take L buf @ seg @ drop (L + k) buf) = take L buf @ seg"
    and "drop (L + k + t) (take L buf @ seg @ drop (L + k) buf) = drop (L + k + t) buf"
    and "length (take L buf @ seg @ drop (L + k) buf) = length buf"
  using assms by (simp_all add: min_absorb2 add.commute)

lemma compose_loop_closed:
  assumes seg: "segmented sigma_p mels secs MAX_LEN"
    and valid: "\<forall>i \<in> set idx. 0 \<le> i \<and> i < int (length secs) - 1"
    and L: "b_last_i st = int L"
    and room: "L + length (concat (map (\<lambda>i. segment mels secs (nat i)) idx)) \<le> length (b_mels st)"
    and same: "length (b_sigma_p st) = length (b_mels st)"
  shows "\<exists>st'. compose_loop sigma_p mels secs n idx st = Inr st' \<and>
     b_mels st' = take L (b_mels st) @ concat (map (\<lambda>i. segment mels secs (nat i)) idx) @
        drop (L + length (concat (map (\<lambda>i. segment mels secs (nat i)) idx))) (b_mels st) \<and>
     b_sigma_p st' = take L (b_sigma_p st) @ concat (map (\<lambda>i. segment sigma_p secs (nat i)) idx) @
        drop (L + length (concat (map (\<lambda>i. segment mels secs (nat i)) idx))) (b_sigma_p st) \<and>
     length (concat (map (\<lambda>i. segment sigma_p secs (nat i)) idx)) =
        length (concat (map (\<lambda>i. segment mels secs (nat i)) idx)) \<and>
     b_last_i st' = int (L + length (concat (map (\<lambda>i. segment mels secs (nat i)) idx))) \<and>
     length (b_secs st') = length (b_secs st) \<and>
     (\<forall>j < length (b_secs st).
        b_secs st' ! j =
          (if n < j \<and> j \<le> n + length idx
           then int (L + length (concat (map (\<lambda>i. segment mels secs (nat i)) (take (j - n) idx))))
           else b_secs st ! j))"
  using valid L room same
proof (induction idx arbitrary: n st L)
  case Nil
  then show ?case by simp
next
  case (Cons i rest)
  let ?seg = "segment mels secs (nat i)"
  let ?sseg = "segment sigma_p secs (nat i)"
  let ?k = "length ?seg"
  let ?Tr = "length (concat (map (\<lambda>i. segment mels secs (nat i)) rest))"
  let ?buf = "b_mels st"
  let ?sbuf = "b_sigma_p st"
  from Cons.prems(1) have i: "0 \<le> i" "i < int (length secs) - 1" by simp_all
  from Cons.prems(3) have room1: "L + ?k \<le> length ?buf" by simp
  let ?st1 = "\<lparr>b_sigma_p = take L ?sbuf @ ?sseg @ drop (L + ?k) ?sbuf,
          b_mels = take L ?buf @ ?seg @ drop (L + ?k) ?buf,
          b_secs = (b_secs st)[n + 1 := int (L + ?k)],
          b_maxlen = max (b_maxlen st) (int ?k),
          b_last_i = int (L + ?k)\<rparr>"
  note step = compose_step_closed(1) [OF seg i Cons.prems(2) room1 Cons.prems(4), where n = n]
  have sk: "length ?sseg = ?k"
    by (rule compose_step_closed(2) [OF seg i Cons.prems(2) room1 Cons.prems(4)])
  have sroom1: "L + ?k \<le> length ?sbuf" using room1 Cons.prems(4) by simp
  note sp = splice_facts [OF room1 refl] and ssp = splice_facts [OF sroom1 sk]
  have p1: "\<forall>i \<in> set rest. 0 \<le> i \<and> i < int (length secs) - 1"
    using Cons.prems(1) by simp
  have p2: "b_last_i ?st1 = int (L + ?k)" by simp
  have p3: "L + ?k + ?Tr \<le> length (b_mels ?st1)"
    using Cons.prems(3) sp(3) by simp
  have p4: "length (b_sigma_p ?st1) = length (b_mels ?st1)"
    using sp(3) ssp(3) Cons.prems(4) by simp
  from Cons.IH [OF p1 p2 p3 p4, where n = "Suc n"] obtain st' where
    r: "compose_loop sigma_p mels secs (Suc n) rest ?st1 = Inr st'" and
    m: "b_mels st' = take (L + ?k) (b_mels ?st1) @
          concat (map (\<lambda>i. segment mels secs (nat i)) rest) @ drop (L + ?k + ?Tr) (b_mels ?st1)" and
    s: "b_sigma_p st' = take (L + ?k) (b_sigma_p ?st1) @
          concat (map (\<lambda>i. segment sigma_p secs (nat i)) rest) @ drop (L + ?k + ?Tr) (b_sigma_p ?st1)" and
    e: "length (concat (map (\<lambda>i. segment sigma_p secs (nat i)) rest)) = ?Tr" and
    l: "b_last_i st' = int (L + ?k + ?Tr)" and
    len: "length (b_secs st') = length (b_secs ?st1)" and
    sec: "\<forall>j < length (b_secs ?st1).
        b_secs st' ! j =
          (if Suc n < j \<and> j \<le> Suc n + length rest
           then int (L + ?k + length (concat (map (\<lambda>i. segment mels secs (nat i)) (take (j - Suc n) rest))))
           else b_secs ?st1 ! j)"
    by blast
  have run: "compose_loop sigma_p mels secs n (i # rest) st = Inr st'"
    using step r by simp
  have m': "b_mels st' = take L ?buf @ concat (map (\<lambda>i. segment mels secs (nat i)) (i # rest)) @
        drop (L + length (concat (map (\<lambda>i. segment mels secs (nat i)) (i # rest)))) ?buf"
    using m sp(1) sp(2) [of ?Tr] by (simp add: add.assoc)
  have s': "b_sigma_p st' = take L ?sbuf @ concat (map (\<lambda>i. segment sigma_p secs (nat i)) (i # rest)) @
        drop (L + length (concat (map (\<lambda>i. segment mels secs (nat i)) (i # rest)))) ?sbuf"
    using s ssp(1) ssp(2) [of ?Tr] by (simp add: add.assoc)
  have e': "length (concat (map (\<lambda>i. segment sigma_p secs (nat i)) (i # rest))) =
        length (concat (map (\<lambda>i. segment mels secs (nat i)) (i # rest)))"
    using e sk by simp
  have l': "b_last_i st' = int (L + length (concat (map (\<lambda>i. segment mels secs (nat i)) (i # rest))))"
    using l by (simp add: add.assoc)
  have len': "length (b_secs st') = length (b_secs st)" using len by simp
  have sec': "b_secs st' ! j =
          (if n < j \<and> j \<le> n + length (i # rest)
           then int (L + length (concat (map (\<lambda>i. segment mels secs (nat i)) (take (j - n) (i # rest)))))
           else b_secs st ! j)" if j: "j < length (b_secs st)" for j
  proof -
    from sec j have c: "b_secs st' ! j =
          (if Suc n < j \<and> j \<le> Suc n + length rest
           then int (L + ?k + length (concat (map (\<lambda>i. segment mels secs (nat i)) (take (j - Suc n) rest))))
           else (b_secs st)[n + 1 := int (L + ?k)] ! j)" by simp
    show ?thesis
    proof (cases "j = Suc n")
      case True
      with c j show ?thesis by simp
    next
      case False
      show ?thesis
      proof (cases "Suc n < j \<and> j \<le> Suc n + length rest")
        case True
        then obtain m where mm: "j - n = Suc m" "j - Suc n = m" by (cases "j - n") auto
        with c True show ?thesis by (simp add: add.assoc)
      next
        case False
        with \<open>j \<noteq> Suc n\<close> c show ?thesis by auto
      qed
    qed
  qed
  from run m' s' e' l' len' sec' show ?case by blast
qed


lemma segments_total_le:
  assumes seg: "segmented sigma_p mels secs MAX_LEN"
    and valid: "\<forall>i \<in> set idx. 0 \<le> i \<and> i < int (length secs) - 1"
  shows "int (length (concat (map (\<lambda>i. segment mels secs (nat i)) idx))) \<le> int (length idx) * MAX_LEN \<and>
     int (length (concat (map (\<lambda>i. segment mels secs (nat i)) idx))) =
           (\<Sum>i\<leftarrow>idx. secs ! Suc (nat i) - secs ! nat i)"
  using valid
proof (induction idx)
  case Nil
  show ?case by simp
next
  case (Cons i rest)
  from Cons.prems have "0 \<le> i" "i < int (length secs) - 1" by simp_all
  then have i: "Suc (nat i) < length secs" by linarith
  note d = segmentedD [OF seg i]
  note sm = segment_in_range(2) [OF d(1) d(2) d(4)]
  from Cons.prems have "\<forall>i \<in> set rest. 0 \<le> i \<and> i < int (length secs) - 1" by simp
  from Cons.IH [OF this] sm d(3) show ?case by (simp add: algebra_simps)
qed

lemma padded_size_ge:
  assumes "0 < pf"
  shows "t \<le> pf * \<lceil>real_of_int t / real_of_int pf\<rceil>"
proof -
  have pos: "0 < real_of_int pf" using assms by simp
  from le_of_int_ceiling [of "real_of_int t / real_of_int pf"]
  have "real_of_int t \<le> of_int \<lceil>real_of_int t / real_of_int pf\<rceil> * real_of_int pf"
    unfolding pos_divide_le_eq [OF pos] .
  then have "real_of_int t \<le> real_of_int (pf * \<lceil>real_of_int t / real_of_int pf\<rceil>)"
    by (simp add: mult.commute)
  then show ?thesis by (simp only: of_int_le_iff)
qed

lemma py_slice_prefix:
  "0 \<le> P \<Longrightarrow> py_slice xs 0 P = take (nat P) xs"
  by (auto simp: py_slice_def slice_bound_def Let_def min_def)

lemma compose_sampled_data_closed:
  assumes seg: "segmented sigma_p mels secs MAX_LEN"
    and valid: "\<forall>i \<in> set idx. 0 \<le> i \<and> i < int (length secs) - 1"
    and pf: "0 < max MAX_LEN g"
  shows "\<exists>ml. compose_sampled_data N sigma_p mels secs MAX_LEN idx g =
     Inr (take (nat (max MAX_LEN g *
                  \<lceil>real (length (concat (map (\<lambda>i. segment mels secs (nat i)) idx))) / real_of_int (max MAX_LEN g)\<rceil>))
            (concat (map (\<lambda>i. segment sigma_p secs (nat i)) idx) @
             replicate (nat (int (length idx) * MAX_LEN) -
                          length (concat (map (\<lambda>i. segment mels secs (nat i)) idx)))
               (replicate N 0)),
          take (nat (max MAX_LEN g *
                  \<lceil>real (length (concat (map (\<lambda>i. segment mels secs (nat i)) idx))) / real_of_int (max MAX_LEN g)\<rceil>))
            (concat (map (\<lambda>i. segment mels secs (nat i)) idx) @
             replicate (nat (int (length idx) * MAX_LEN) -
                          length (concat (map (\<lambda>i. segment mels secs (nat i)) idx))) 0),
          map (\<lambda>j. int (length (concat (map (\<lambda>i. segment mels secs (nat i)) (take j idx)))))
            [0..<Suc (length idx)],
          ml)"
    and "length (concat (map (\<lambda>i. segment sigma_p secs (nat i)) idx)) =
           length (concat (map (\<lambda>i. segment mels secs (nat i)) idx))"
proof -
  let ?T = "length (concat (map (\<lambda>i. segment mels secs (nat i)) idx))"
  let ?B = "nat (int (length idx) * MAX_LEN)"
  let ?pf = "max MAX_LEN g"
  let ?P = "?pf * \<lceil>real ?T / real_of_int ?pf\<rceil>"
  let ?st0 = "\<lparr>b_sigma_p = replicate ?B (replicate N 0), b_mels = replicate ?B 0,
                 b_secs = replicate (nat (int (length idx) + 1)) 0,
                 b_maxlen = 0, b_last_i = 0\<rparr> :: ('a, 'b) batch_state"
  from seg have M: "0 \<le> MAX_LEN" by (simp add: segmented_def)
  then have "0 \<le> int (length idx) * MAX_LEN" by (intro mult_nonneg_nonneg) simp_all
  then have nn: "\<not> int (length idx) * MAX_LEN < 0" by linarith
  have TB: "?T \<le> ?B" using segments_total_le [OF seg valid] by linarith
  have L0: "b_last_i ?st0 = int 0" by simp
  have room: "0 + ?T \<le> length (b_mels ?st0)" using TB by simp
  have same: "length (b_sigma_p ?st0) = length (b_mels ?st0)" by simp
  from compose_loop_closed [OF seg valid L0 room same, where n = 0] obtain st where
    r: "compose_loop sigma_p mels secs 0 idx ?st0 = Inr st" and
    m: "b_mels st = concat (map (\<lambda>i. segment mels secs (nat i)) idx) @ replicate (?B - ?T) 0" and
    s: "b_sigma_p st = concat (map (\<lambda>i. segment sigma_p secs (nat i)) idx) @
          replicate (?B - ?T) (replicate N 0)" and
    e: "length (concat (map (\<lambda>i. segment sigma_p secs (nat i)) idx)) = ?T" and
    l: "b_last_i st = int ?T" and
    len: "length (b_secs st) = Suc (length idx)" and
    sec: "\<forall>j < Suc (length idx). b_secs st ! j =
          (if 0 < j \<and> j \<le> length idx
           then int (length (concat (map (\<lambda>i. segment mels secs (nat i)) (take j idx))))
           else replicate (Suc (length idx)) 0 ! j)"
    by (auto simp: nat_add_distrib)
  show "length (concat (map (\<lambda>i. segment sigma_p secs (nat i)) idx)) = ?T" by (rule e)
  have secs: "b_secs st = map (\<lambda>j. int (length (concat (map (\<lambda>i. segment mels secs (nat i)) (take j idx)))))
            [0..<Suc (length idx)]"
  proof (rule nth_equalityI)
    show "length (b_secs st) = length (map (\<lambda>j. int (length (concat (map (\<lambda>i. segment mels secs (nat i)) (take j idx)))))
            [0..<Suc (length idx)])" using len by simp
  next
    fix j assume "j < length (b_secs st)"
    then have j: "j < Suc (length idx)" using len by simp
    show "b_secs st ! j = map (\<lambda>j. int (length (concat (map (\<lambda>i. segment mels secs (nat i)) (take j idx)))))
            [0..<Suc (length idx)] ! j"
    proof (cases "j = 0")
      case True
      with sec j show ?thesis by (simp del: upt_Suc replicate_Suc)
    next
      case False
      with sec j show ?thesis by (simp del: upt_Suc replicate_Suc)
    qed
  qed
  have P: "0 \<le> ?P" using padded_size_ge [OF pf, of "int ?T"] by simp
  have pfn: "?pf \<noteq> 0" using pf by simp
  have "compose_sampled_data N sigma_p mels secs MAX_LEN idx g =
      Inr (py_slice (b_sigma_p st) 0 ?P, py_slice (b_mels st) 0 ?P, b_secs st, b_maxlen st)"
    unfolding compose_sampled_data_def Let_def using nn r pfn l by simp
  then show "\<exists>ml. compose_sampled_data N sigma_p mels secs MAX_LEN idx g =
     Inr (take (nat ?P)
            (concat (map (\<lambda>i. segment sigma_p secs (nat i)) idx) @
             replicate (?B - ?T) (replicate N 0)),
          take (nat ?P)
            (concat (map (\<lambda>i. segment mels secs (nat i)) idx) @ replicate (?B - ?T) 0),
          map (\<lambda>j. int (length (concat (map (\<lambda>i. segment mels secs (nat i)) (take j idx)))))
            [0..<Suc (length idx)],
          ml)"
    unfolding py_slice_prefix [OF P] m s secs by blast
qed





lemma length_take_padded:
  assumes "length xs \<le> B"
  shows "length (take P (xs @ replicate (B - length xs) z)) = min P B"
proof -
  have "length (xs @ replicate (B - length xs) z) = B" using assms by simp
  then show ?thesis by (simp only: length_take min.commute)
qed

lemma varied_convert:
  "convert_data varied_get_conn (\<lambda>U. 2) 1 [[3], [1], [2]] (Bases [Str ''Z'', Str ''Z'', Str ''Z''])
     = Inr (varied_sigma_p, varied_mels, varied_secs, 3)"
  by code_simp

lemma varied_segmented: "segmented varied_sigma_p varied_mels varied_secs 3"
  by (simp add: segmented_def varied_sigma_p_def varied_mels_def varied_secs_def)


lemma varied_compose_two:
  "compose_sampled_data 1 varied_sigma_p varied_mels varied_secs 3 [0, 1, 1, 2] 2
     = Inr ([[3], [3], [3], [1], [1], [2], [2], [0], [0]],
            [30, 31, 32, 10, 10, 20, 21, 0, 0], [0, 3, 4, 5, 7], 3)"
  by code_simp

lemma example_compose:
  "compose_sampled_data 1 [[1], [- 1], [0::int]] [1, 1, 0::complex] [0, 1, 2] 1 [0, 1] 128
     = Inr ([[1], [- 1]], [1, 1], [0, 1, 2], 1)"
  by code_simp




text \<open>
  C2, as the code has it. For a dataset in segmented form and sampled indices inside the
  dataset, the composition returns a batch whose two flat buffers have the same length,
  at least the true total copied length (the last offset of the batch, the sum of the
  copied segment lengths). The buffers are cut out of an allocation of
  \<open>N_samples * MAX_LEN\<close> entries: whenever the total rounded up to a multiple of
  \<open>max MAX_LEN padding_granularity\<close> fits into that allocation, the length is that rounded
  total, a multiple of \<open>max MAX_LEN padding_granularity\<close>; it always fits when
  \<open>padding_granularity \<le> MAX_LEN\<close>.
\<close>

theorem batch_length_padded:
  assumes seg: "segmented sigma_p mels secs MAX_LEN"
    and valid: "\<forall>i \<in> set idx. 0 \<le> i \<and> i < int (length secs) - 1"
    and pf: "0 < max MAX_LEN g"
  shows "\<exists>sigma_p' mels' secs' maxlen'.
     compose_sampled_data N sigma_p mels secs MAX_LEN idx g = Inr (sigma_p', mels', secs', maxlen') \<and>
     length sigma_p' = length mels' \<and>
     last secs' = (\<Sum>i\<leftarrow>idx. secs ! Suc (nat i) - secs ! nat i) \<and>
     last secs' \<le> int (length mels') \<and>
     (max MAX_LEN g * \<lceil>real_of_int (last secs') / real_of_int (max MAX_LEN g)\<rceil>
          \<le> int (length idx) * MAX_LEN \<longrightarrow>
        int (length mels') =
          max MAX_LEN g * \<lceil>real_of_int (last secs') / real_of_int (max MAX_LEN g)\<rceil> \<and>
        max MAX_LEN g dvd int (length mels')) \<and>
     (g \<le> MAX_LEN \<longrightarrow>
        max MAX_LEN g * \<lceil>real_of_int (last secs') / real_of_int (max MAX_LEN g)\<rceil>
          \<le> int (length idx) * MAX_LEN)"
proof -
  let ?f = "\<lambda>i. segment mels secs (nat i)"
  let ?h = "\<lambda>i. segment sigma_p secs (nat i)"
  let ?T = "length (concat (map ?f idx))"
  let ?Bz = "int (length idx) * MAX_LEN"
  let ?B = "nat ?Bz"
  let ?pf = "max MAX_LEN g"
  let ?Pz = "?pf * \<lceil>real ?T / real_of_int ?pf\<rceil>"
  let ?P = "nat ?Pz"
  let ?secs' = "map (\<lambda>j. int (length (concat (map ?f (take j idx))))) [0..<Suc (length idx)]"
  let ?mels' = "take ?P (concat (map ?f idx) @ replicate (?B - ?T) 0)"
  let ?sigma_p' = "take ?P (concat (map ?h idx) @ replicate (?B - ?T) (replicate N 0))"
  from compose_sampled_data_closed(1) [OF seg valid pf, where N = N] obtain ml where
    run: "compose_sampled_data N sigma_p mels secs MAX_LEN idx g = Inr (?sigma_p', ?mels', ?secs', ml)"
    by blast
  note tot = segments_total_le [OF seg valid]
  have TPz: "int ?T \<le> ?Pz" using padded_size_ge [OF pf, of "int ?T"] by simp
  then have TP: "?T \<le> ?P" by linarith
  have TB: "?T \<le> ?B" using tot by linarith
  have eqT: "length (concat (map ?h idx)) = ?T"
    by (rule compose_sampled_data_closed(2) [OF seg valid pf])
  have lm: "length ?mels' = min ?P ?B" using TB by (rule length_take_padded)
  have ls: "length ?sigma_p' = min ?P ?B"
    using length_take_padded [of "concat (map ?h idx)" ?B ?P "replicate N 0"] TB
    unfolding eqT by simp
  have "last ?secs' = ?secs' ! (length ?secs' - 1)" by (rule last_conv_nth) simp
  also have "\<dots> = int ?T" by (simp del: upt_Suc)
  finally have last: "last ?secs' = int ?T" .
  define T where "T = ?T"
  define Pz where "Pz = ?pf * \<lceil>real T / real_of_int ?pf\<rceil>"
  define Bz where "Bz = ?Bz"
  have "\<exists>sigma_p' mels' secs' maxlen'.
      compose_sampled_data N sigma_p mels secs MAX_LEN idx g = Inr (sigma_p', mels', secs', maxlen') \<and>
      length sigma_p' = min (nat Pz) (nat Bz) \<and> length mels' = min (nat Pz) (nat Bz) \<and>
      last secs' = int T"
    unfolding T_def Pz_def Bz_def
    by (intro exI conjI) (rule run, rule ls, rule lm, rule last)
  then obtain sigma_p' mels' secs' maxlen' where
    run': "compose_sampled_data N sigma_p mels secs MAX_LEN idx g = Inr (sigma_p', mels', secs', maxlen')"
    and ls': "length sigma_p' = min (nat Pz) (nat Bz)"
    and lm': "length mels' = min (nat Pz) (nat Bz)"
    and last': "last secs' = int T"
    by blast
  have tot': "int T \<le> Bz" "int T = (\<Sum>i\<leftarrow>idx. secs ! Suc (nat i) - secs ! nat i)"
    using tot unfolding T_def Bz_def by simp_all
  have TPz': "int T \<le> Pz" using TPz unfolding T_def Pz_def .
  have c1: "length sigma_p' = length mels'" unfolding lm' ls' ..
  have c2: "last secs' = (\<Sum>i\<leftarrow>idx. secs ! Suc (nat i) - secs ! nat i)"
    unfolding last' by (rule tot'(2))
  have c3: "last secs' \<le> int (length mels')"
    unfolding last' lm' using TPz' tot'(1) by linarith
  have pz: "?pf * \<lceil>real_of_int (last secs') / real_of_int ?pf\<rceil> = Pz"
    unfolding last' Pz_def by simp
  have c4: "int (length mels') = Pz \<and> ?pf dvd int (length mels')" if le: "Pz \<le> Bz"
  proof -
    have "0 \<le> Pz" using TPz' by linarith
    with le have e: "int (length mels') = Pz" unfolding lm' by linarith
    have "?pf dvd Pz" unfolding Pz_def by (rule dvd_triv_left)
    with e show ?thesis by simp
  qed
  have c5: "Pz \<le> Bz" if g: "g \<le> MAX_LEN"
  proof -
    from g pf have M: "?pf = MAX_LEN" "0 < MAX_LEN" by simp_all
    have "real_of_int (int T) \<le> real_of_int (int (length idx) * MAX_LEN)"
      using tot'(1) unfolding Bz_def by (simp only: of_int_le_iff)
    then have "real T \<le> real (length idx) * real_of_int MAX_LEN" by simp
    then have "real T / real_of_int MAX_LEN \<le> real (length idx)"
      using M(2) by (simp add: pos_divide_le_eq)
    then have "\<lceil>real T / real_of_int MAX_LEN\<rceil> \<le> int (length idx)"
      by (simp add: ceiling_le_iff)
    then have "MAX_LEN * \<lceil>real T / real_of_int MAX_LEN\<rceil> \<le> MAX_LEN * int (length idx)"
      using M(2) by (intro mult_left_mono) simp_all
    then show ?thesis unfolding Pz_def Bz_def M(1) by (simp add: mult.commute)
  qed
  have c4': "?pf * \<lceil>real_of_int (last secs') / real_of_int ?pf\<rceil> \<le> int (length idx) * MAX_LEN \<longrightarrow>
      int (length mels') = ?pf * \<lceil>real_of_int (last secs') / real_of_int ?pf\<rceil> \<and>
      ?pf dvd int (length mels')"
    using c4 unfolding pz Bz_def by blast
  have c5': "g \<le> MAX_LEN \<longrightarrow>
      ?pf * \<lceil>real_of_int (last secs') / real_of_int ?pf\<rceil> \<le> int (length idx) * MAX_LEN"
    using c5 unfolding pz Bz_def by blast
  show ?thesis
    by (intro exI conjI) (rule run', rule c1, rule c2, rule c3, rule c4', rule c5')
qed

theorem batch_length_padded_witness:
  "segmented varied_sigma_p varied_mels varied_secs 3 \<and>
   list_all (\<lambda>i. 0 \<le> i \<and> i < int (length varied_secs) - 1) [0, 1, 1, 2] \<and>
   (0::int) < max 3 2 \<and>
   compose_sampled_data 1 varied_sigma_p varied_mels varied_secs 3 [0, 1, 1, 2] 2
     = Inr ([[3], [3], [3], [1], [1], [2], [2], [0], [0]],
            [30, 31, 32, 10, 10, 20, 21, 0, 0], [0, 3, 4, 5, 7], 3) \<and>
   last [0, 3, 4, 5, 7 :: int] \<le> int (length [30, 31, 32, 10, 10, 20, 21, 0, 0 :: int]) \<and>
   max 3 2 * \<lceil>real_of_int (last [0, 3, 4, 5, 7]) / real_of_int (max 3 2)\<rceil>
     \<le> int (length [0, 1, 1, 2 :: int]) * 3 \<and>
   int (length [30, 31, 32, 10, 10, 20, 21, 0, 0 :: int])
     = max 3 2 * \<lceil>real_of_int (last [0, 3, 4, 5, 7]) / real_of_int (max 3 2)\<rceil> \<and>
   max 3 2 dvd int (length [30, 31, 32, 10, 10, 20, 21, 0, 0 :: int])"
proof -
  have h2: "\<forall>i \<in> set [0, 1, 1, 2]. 0 \<le> i \<and> i < int (length varied_secs) - 1"
    by (simp add: varied_secs_def)
  have h3: "(0::int) < max 3 2" by simp
  from batch_length_padded [OF varied_segmented h2 h3, where N = 1]
  have "last [0, 3, 4, 5, 7 :: int] \<le> int (length [30, 31, 32, 10, 10, 20, 21, 0, 0 :: int]) \<and>
     (max 3 2 * \<lceil>real_of_int (last [0, 3, 4, 5, 7]) / real_of_int (max 3 2)\<rceil>
          \<le> int (length [0, 1, 1, 2 :: int]) * 3 \<longrightarrow>
        int (length [30, 31, 32, 10, 10, 20, 21, 0, 0 :: int]) =
          max 3 2 * \<lceil>real_of_int (last [0, 3, 4, 5, 7]) / real_of_int (max 3 2)\<rceil> \<and>
        max 3 2 dvd int (length [30, 31, 32, 10, 10, 20, 21, 0, 0 :: int])) \<and>
     ((2::int) \<le> 3 \<longrightarrow>
        max 3 2 * \<lceil>real_of_int (last [0, 3, 4, 5, 7]) / real_of_int (max 3 2)\<rceil>
          \<le> int (length [0, 1, 1, 2 :: int]) * 3)"
    unfolding varied_compose_two by blast
  then show ?thesis
    using varied_segmented varied_compose_two h2 h3 by (simp add: varied_secs_def)
qed

text \<open>
  C2 as stated fails. With the default granularity 128, a batch of two records of the
  first dataset has buffers of length 2; with granularity 2 and \<open>MAX_LEN = 3\<close>, a batch of
  the second dataset has buffers of length 9.
\<close>

theorem batch_length_multiple_counterexample:
  "convert_data example_get_conn (\<lambda>U. 2) 1 [[1], [- 1]] (Bases [Str ''Z'', Str ''Z''])
     = Inr ([[1], [- 1], [0]], [1, 1, 0], [0, 1, 2], 1) \<and>
   compose_sampled_data 1 [[1], [- 1], [0::int]] [1, 1, 0::complex] [0, 1, 2] 1 [0, 1] 128
     = Inr ([[1], [- 1]], [1, 1], [0, 1, 2], 1) \<and>
   \<not> (128::int) dvd int (length [1, 1 :: complex]) \<and>
   convert_data varied_get_conn (\<lambda>U. 2) 1 [[3], [1], [2]] (Bases [Str ''Z'', Str ''Z'', Str ''Z''])
     = Inr (varied_sigma_p, varied_mels, varied_secs, 3) \<and>
   compose_sampled_data 1 varied_sigma_p varied_mels varied_secs 3 [0, 1, 1, 2] 2
     = Inr ([[3], [3], [3], [1], [1], [2], [2], [0], [0]],
            [30, 31, 32, 10, 10, 20, 21, 0, 0], [0, 3, 4, 5, 7], 3) \<and>
   \<not> (2::int) dvd int (length [30, 31, 32, 10, 10, 20, 21, 0, 0 :: int])"
proof -
  have "convert_data example_get_conn (\<lambda>U. 2) 1 [[1], [- 1]] (Bases [Str ''Z'', Str ''Z''])
     = Inr ([[1], [- 1], [0]], [1, 1, 0], [0, 1, 2], 1)"
    by code_simp
  then show ?thesis
    using example_compose varied_convert varied_compose_two by simp
qed

section \<open>Segment sums: what each row receives\<close>

lemma length_cumsum_from: "length (cumsum_from a xs) = length xs"
  by (induction xs arbitrary: a) simp_all

lemma cumsum_from_nth:
  "p < length xs \<Longrightarrow> cumsum_from a xs ! p = a + sum_list (take (Suc p) xs)"
proof (induction xs arbitrary: a p)
  case Nil
  then show ?case by simp
next
  case (Cons x xs)
  show ?case
  proof (cases p)
    case 0
    then show ?thesis by simp
  next
    case (Suc q)
    with Cons.prems have "q < length xs" by simp
    from Cons.IH [OF this, of "a + x"] Suc show ?thesis by (simp add: add.assoc)
  qed
qed

lemma cumsum_from_butlast: "cumsum_from a (butlast xs) = butlast (cumsum_from a xs)"
proof (induction xs arbitrary: a)
  case Nil
  then show ?case by simp
next
  case (Cons x xs)
  have "cumsum_from (a + x) xs = [] \<longleftrightarrow> xs = []" by (cases xs) simp_all
  with Cons.IH [of "a + x"] show ?case by simp
qed

lemma cumsum_from_differences:
  "xs \<noteq> [] \<Longrightarrow> cumsum_from (hd xs) (map2 (\<lambda>a b. a - b) (tl xs) (butlast xs)) = tl xs"
proof (induction xs)
  case Nil
  then show ?case by simp
next
  case (Cons x ys)
  show ?case
  proof (cases ys)
    case Nil
    then show ?thesis by simp
  next
    case (Cons y zs)
    with Cons.IH have "cumsum_from y (map2 (\<lambda>a b. a - b) zs (butlast (y # zs))) = zs" by simp
    with Cons show ?thesis by simp
  qed
qed

lemma scatter_indices_offsets:
  assumes "2 \<le> length secs" and "hd secs = 0"
  shows "cumsum (0 # butlast (map2 (\<lambda>a b. a - b) (tl secs) (butlast secs))) = butlast secs"
proof -
  from assms(1) obtain x y zs where secs: "secs = x # y # zs"
    by (cases secs; cases "tl secs") auto
  with assms(2) have x: "x = 0" by simp
  have ne: "secs \<noteq> []" using secs by simp
  have "cumsum (0 # butlast (map2 (\<lambda>a b. a - b) (tl secs) (butlast secs)))
      = 0 # butlast (cumsum_from (hd secs) (map2 (\<lambda>a b. a - b) (tl secs) (butlast secs)))"
    by (simp add: cumsum_def cumsum_from_butlast assms(2))
  also have "\<dots> = 0 # butlast (tl secs)"
    by (simp only: cumsum_from_differences [OF ne])
  also have "\<dots> = butlast secs" using secs x by simp
  finally show ?thesis .
qed

lemma length_filter_disjoint:
  assumes "\<And>x. \<not> (P x \<and> Q x)"
  shows "length (filter P xs) + length (filter Q xs) = length (filter (\<lambda>x. P x \<or> Q x) xs)"
  using assms by (induction xs) auto

lemma indicator_prefix_sum:
  "sum_list (map (\<lambda>j. int (length (filter (\<lambda>s. s = int j) sc))) [0..<m])
     = int (length (filter (\<lambda>s. 0 \<le> s \<and> s < int m) sc))"
proof (induction m)
  case 0
  have "filter (\<lambda>s. 0 \<le> s \<and> s < int 0) sc = []" by (induction sc) auto
  then show ?case by simp
next
  case (Suc m)
  have e: "(\<lambda>s. 0 \<le> s \<and> s < int (Suc m)) = (\<lambda>s. (0 \<le> s \<and> s < int m) \<or> s = int m)"
    by (rule ext) auto
  have "length (filter (\<lambda>s. 0 \<le> s \<and> s < int m) sc) + length (filter (\<lambda>s. s = int m) sc)
      = length (filter (\<lambda>s. (0 \<le> s \<and> s < int m) \<or> s = int m) sc)"
    by (rule length_filter_disjoint) auto
  with Suc.IH show ?case unfolding e by simp
qed

lemma jnp_repeat_arange_nth:
  assumes "2 \<le> length secs" and "hd secs = 0" and "p < n"
  shows "length (jnp_repeat_arange (length secs - 1)
            (map2 (\<lambda>a b. a - b) (tl secs) (butlast secs)) n) = n"
    and "jnp_repeat_arange (length secs - 1) (map2 (\<lambda>a b. a - b) (tl secs) (butlast secs)) n ! p
      = int (length (filter (\<lambda>s. 0 \<le> s \<and> s < int (Suc p)) (butlast secs))) - 1"
proof -
  let ?sizes = "map2 (\<lambda>a b. a - b) (tl secs) (butlast secs)"
  let ?ind = "map (\<lambda>j. int (length (filter (\<lambda>s. s = int j) (butlast secs)))) [0..<n]"
  have n: "n \<noteq> 0" "length secs - 1 \<noteq> 0" using assms by simp_all
  have rep: "jnp_repeat_arange (length secs - 1) ?sizes n = map (\<lambda>c. c - 1) (cumsum ?ind)"
    using n by (simp add: jnp_repeat_arange_def Let_def scatter_indices_offsets [OF assms(1,2)])
  show "length (jnp_repeat_arange (length secs - 1) ?sizes n) = n"
    unfolding rep by (simp add: cumsum_def length_cumsum_from)
  have p: "p < length ?ind" using assms(3) by simp
  have tk: "take (Suc p) ?ind = map (\<lambda>j. int (length (filter (\<lambda>s. s = int j) (butlast secs)))) [0..<Suc p]"
    using assms(3) by (simp only: take_map take_upt) simp
  have "cumsum ?ind ! p = sum_list (take (Suc p) ?ind)"
    unfolding cumsum_def using cumsum_from_nth [OF p, of 0] by simp
  also have "\<dots> = int (length (filter (\<lambda>s. 0 \<le> s \<and> s < int (Suc p)) (butlast secs)))"
    unfolding tk by (rule indicator_prefix_sum)
  finally show "jnp_repeat_arange (length secs - 1) ?sizes n ! p
      = int (length (filter (\<lambda>s. 0 \<le> s \<and> s < int (Suc p)) (butlast secs))) - 1"
    unfolding rep using p by (simp add: cumsum_def length_cumsum_from)
qed

lemma sorted_count_le:
  fixes xs :: "int list"
  assumes "sorted xs"
  shows "(\<forall>r < length (filter (\<lambda>x. x \<le> q) xs). xs ! r \<le> q) \<and>
     (\<forall>r. length (filter (\<lambda>x. x \<le> q) xs) \<le> r \<and> r < length xs \<longrightarrow> q < xs ! r)"
  using assms
proof (induction xs)
  case Nil
  then show ?case by simp
next
  case (Cons x xs)
  then have so: "sorted xs" and le: "\<forall>y \<in> set xs. x \<le> y" by simp_all
  note IH = Cons.IH [OF so]
  show ?case
  proof (cases "x \<le> q")
    case True
    have a: "(x # xs) ! r \<le> q" if "r < length (filter (\<lambda>x. x \<le> q) (x # xs))" for r
    proof (cases r)
      case 0
      with True show ?thesis by simp
    next
      case (Suc r')
      with that True IH show ?thesis by simp
    qed
    have b: "q < (x # xs) ! r"
      if "length (filter (\<lambda>x. x \<le> q) (x # xs)) \<le> r \<and> r < length (x # xs)" for r
    proof (cases r)
      case 0
      with that True show ?thesis by simp
    next
      case (Suc r')
      with that True IH show ?thesis by simp
    qed
    from a b show ?thesis by blast
  next
    case False
    then have gt: "q < y" if "y \<in> set (x # xs)" for y using le that by auto
    then have "filter (\<lambda>x. x \<le> q) (x # xs) = []"
      by (intro filter_False) (auto simp: not_le)
    moreover have "q < (x # xs) ! r" if "r < length (x # xs)" for r
      using gt [OF nth_mem [OF that]] .
    ultimately show ?thesis by simp
  qed
qed

lemma sorted_count_eq_Suc:
  fixes xs :: "int list"
  assumes so: "sorted xs" and s: "s < length xs"
  shows "length (filter (\<lambda>x. x \<le> q) xs) = Suc s \<longleftrightarrow>
     xs ! s \<le> q \<and> (Suc s < length xs \<longrightarrow> q < xs ! Suc s)"
proof -
  let ?c = "length (filter (\<lambda>x. x \<le> q) xs)"
  note sc = sorted_count_le [OF so, of q]
  have cl: "?c \<le> length xs" by (rule length_filter_le)
  show ?thesis
  proof
    assume c: "?c = Suc s"
    then have "xs ! s \<le> q" using sc by simp
    moreover have "q < xs ! Suc s" if "Suc s < length xs" using sc c that by simp
    ultimately show "xs ! s \<le> q \<and> (Suc s < length xs \<longrightarrow> q < xs ! Suc s)" by blast
  next
    assume h: "xs ! s \<le> q \<and> (Suc s < length xs \<longrightarrow> q < xs ! Suc s)"
    have 1: "s < ?c"
    proof (rule ccontr)
      assume "\<not> s < ?c"
      then have "q < xs ! s" using sc s by simp
      with h show False by simp
    qed
    have 2: "?c \<le> Suc s"
    proof (rule ccontr)
      assume n: "\<not> ?c \<le> Suc s"
      then have lt: "Suc s < ?c" by simp
      then have "xs ! Suc s \<le> q" using sc by simp
      moreover have "Suc s < length xs" using lt cl by linarith
      ultimately show False using h by simp
    qed
    from 1 2 show "?c = Suc s" by simp
  qed
qed

lemma filter_zip_interval:
  assumes len: "length ids = length arr" and ab: "a \<le> b" "b \<le> length arr"
    and iff: "\<forall>p < length arr. ids ! p = s \<longleftrightarrow> a \<le> p \<and> p < b"
  shows "map fst (filter (\<lambda>(x, k). k = s) (zip arr ids)) = take (b - a) (drop a arr)"
proof -
  let ?P = "\<lambda>(x, k). k = s"
  have arr: "arr = take a arr @ take (b - a) (drop a arr) @ drop b arr"
    using ab by (metis append_take_drop_id drop_drop le_add_diff_inverse2)
  have ids: "ids = take a ids @ take (b - a) (drop a ids) @ drop b ids"
    using ab by (metis append_take_drop_id drop_drop le_add_diff_inverse2)
  have z: "zip arr ids = zip (take a arr) (take a ids) @
      zip (take (b - a) (drop a arr)) (take (b - a) (drop a ids)) @ zip (drop b arr) (drop b ids)"
    by (subst arr, subst ids) (simp add: len)
  have f1: "filter ?P (zip (take a arr) (take a ids)) = []"
  proof (rule filter_False, rule ballI)
    fix xk assume m: "xk \<in> set (zip (take a arr) (take a ids))"
    obtain x k where xk: "xk = (x, k)" by (cases xk)
    from m xk obtain i where i: "i < a" "i < length arr" "take a ids ! i = k"
      using len by (auto simp: in_set_zip)
    then have "ids ! i = k" by simp
    with iff i have "k \<noteq> s" by auto
    then show "\<not> ?P xk" by (simp add: xk)
  qed
  have f3: "filter ?P (zip (drop b arr) (drop b ids)) = []"
  proof (rule filter_False, rule ballI)
    fix xk assume m: "xk \<in> set (zip (drop b arr) (drop b ids))"
    obtain x k where xk: "xk = (x, k)" by (cases xk)
    from m xk obtain i where i: "i < length arr - b" "ids ! (b + i) = k"
      using len by (auto simp: in_set_zip)
    then have "b + i < length arr" by simp
    with iff i have "k \<noteq> s" by auto
    then show "\<not> ?P xk" by (simp add: xk)
  qed
  have f2: "filter ?P (zip (take (b - a) (drop a arr)) (take (b - a) (drop a ids)))
      = zip (take (b - a) (drop a arr)) (take (b - a) (drop a ids))"
  proof (rule filter_True, rule ballI)
    fix xk assume m: "xk \<in> set (zip (take (b - a) (drop a arr)) (take (b - a) (drop a ids)))"
    obtain x k where xk: "xk = (x, k)" by (cases xk)
    from m xk obtain i where i: "i < b - a" "take (b - a) (drop a ids) ! i = k"
      by (auto simp: in_set_zip)
    then have "ids ! (a + i) = k" using len ab by simp
    moreover have "ids ! (a + i) = s" using iff i ab by simp
    ultimately show "?P xk" by (simp add: xk)
  qed
  have "map fst (filter ?P (zip arr ids))
      = map fst (zip (take (b - a) (drop a arr)) (take (b - a) (drop a ids)))"
    by (subst z) (simp only: filter_append f1 f2 f3 append_Nil append_Nil2)
  also have "\<dots> = take (b - a) (drop a arr)"
    by (rule map_fst_zip) (simp add: len)
  finally show ?thesis .
qed


lemma sum_sections_nth:
  fixes arr :: "'a::comm_monoid_add list"
  assumes l2: "2 \<le> length secs" and h0: "hd secs = 0" and so: "sorted secs"
    and la: "last secs \<le> int (length arr)" and s: "s < length secs - 1"
  shows "sum_sections arr secs ! s =
     sum_list (take ((if Suc s < length secs - 1 then nat (secs ! Suc s) else length arr)
                       - nat (secs ! s)) (drop (nat (secs ! s)) arr))"
proof -
  let ?N = "length secs - 1"
  let ?xs = "butlast secs"
  let ?sizes = "map2 (\<lambda>a b. a - b) (tl secs) (butlast secs)"
  let ?ids = "jnp_repeat_arange ?N ?sizes (length arr)"
  let ?a = "nat (secs ! s)"
  let ?b = "if Suc s < ?N then nat (secs ! Suc s) else length arr"
  have ne: "secs \<noteq> []" using l2 by auto
  have nth0: "secs ! 0 = 0" using h0 ne by (simp add: hd_conv_nth)
  have mono: "secs ! i \<le> secs ! j" if "i \<le> j" "j < length secs" for i j
    using so that by (rule sorted_nth_mono)
  have nonneg: "0 \<le> secs ! j" if "j < length secs" for j
    using mono [of 0 j] that nth0 by simp
  have le_last: "secs ! j \<le> last secs" if "j < length secs" for j
    using mono [of j "length secs - 1"] that ne by (simp add: last_conv_nth)
  have lx: "length ?xs = ?N" by simp
  have xn: "?xs ! r = secs ! r" if "r < ?N" for r using that by (simp add: nth_butlast)
  have sx: "sorted ?xs" using so by (rule sorted_butlast)
  have xpos: "0 \<le> x" if "x \<in> set ?xs" for x
  proof -
    from that obtain r where "r < length ?xs" "?xs ! r = x" by (auto simp: in_set_conv_nth)
    then show ?thesis using nonneg [of r] xn [of r] by simp
  qed
  have len: "length ?ids = length arr"
  proof (cases "length arr = 0")
    case True
    then show ?thesis by (simp add: jnp_repeat_arange_def)
  next
    case False
    then have "0 < length arr" by simp
    from jnp_repeat_arange_nth(1) [OF l2 h0 this] show ?thesis .
  qed
  have sN: "s < length ?xs" using s by simp
  have iff: "\<forall>p < length arr. ?ids ! p = int s \<longleftrightarrow> ?a \<le> p \<and> p < ?b"
  proof (intro allI impI)
    fix p assume p: "p < length arr"
    have fc: "filter (\<lambda>x. 0 \<le> x \<and> x < int (Suc p)) ?xs = filter (\<lambda>x. x \<le> int p) ?xs"
      by (rule filter_cong [OF refl]) (use xpos in auto)
    have "?ids ! p = int (length (filter (\<lambda>x. x \<le> int p) ?xs)) - 1"
      using jnp_repeat_arange_nth(2) [OF l2 h0 p] unfolding fc .
    then have "?ids ! p = int s \<longleftrightarrow> length (filter (\<lambda>x. x \<le> int p) ?xs) = Suc s"
      by linarith
    also have "\<dots> \<longleftrightarrow> ?xs ! s \<le> int p \<and> (Suc s < length ?xs \<longrightarrow> int p < ?xs ! Suc s)"
      by (rule sorted_count_eq_Suc [OF sx sN])
    also have "\<dots> \<longleftrightarrow> ?a \<le> p \<and> p < ?b"
    proof (cases "Suc s < ?N")
      case True
      then have "?xs ! s = secs ! s" "?xs ! Suc s = secs ! Suc s" using xn by simp_all
      moreover have "0 \<le> secs ! s" using s by (intro nonneg) simp
      ultimately show ?thesis using True by (simp add: lx; linarith)
    next
      case False
      have "?xs ! s = secs ! s" using xn s by simp
      moreover have "0 \<le> secs ! s" using s by (intro nonneg) simp
      ultimately show ?thesis using False p by (simp add: lx; linarith)
    qed
    finally show "?ids ! p = int s \<longleftrightarrow> ?a \<le> p \<and> p < ?b" .
  qed
  have ab: "?a \<le> ?b"
  proof (cases "Suc s < ?N")
    case True
    then have "secs ! s \<le> secs ! Suc s" by (intro mono) simp_all
    with True show ?thesis by simp
  next
    case False
    have "secs ! s \<le> last secs" using s by (intro le_last) simp
    with la False show ?thesis by simp
  qed
  have bl: "?b \<le> length arr"
  proof (cases "Suc s < ?N")
    case True
    then have "secs ! Suc s \<le> last secs" by (intro le_last) simp
    with la True show ?thesis by simp
  next
    case False
    then show ?thesis by simp
  qed
  have "sum_sections arr secs ! s =
      sum_list (map fst (filter (\<lambda>(x, k). k = int s) (zip arr ?ids)))"
    using s by (simp add: sum_sections_def segment_sum_def Let_def)
  also have "map fst (filter (\<lambda>(x, k). k = int s) (zip arr ?ids)) = take (?b - ?a) (drop ?a arr)"
    by (rule filter_zip_interval [OF len ab bl iff])
  finally show ?thesis .
qed


lemma sum_list_all_zero:
  "(\<forall>x \<in> set xs. x = 0) \<Longrightarrow> sum_list xs = (0 :: 'a::comm_monoid_add)"
  by (induction xs) simp_all

lemma length_sum_sections: "length (sum_sections arr secs) = length secs - 1"
  by (simp add: sum_sections_def segment_sum_def Let_def)

text \<open>
  C9, as the code has it. For offsets that start at zero, do not decrease and end inside
  the array, \<^verbatim>\<open>sum_sections\<close> returns one value per segment; the value of every segment but
  the last is the sum of the array over that segment, and the value of the last segment is
  the sum of the array from the last segment's start to the end of the array, so every
  entry past the final offset is folded into the last value. The documented per-segment
  sums are obtained whenever every entry past the final offset is zero. Nothing is stated
  for entries past the final offset that are not all zero.
\<close>

theorem sum_sections_folds_tail:
  fixes arr :: "'a::comm_monoid_add list"
  assumes l2: "2 \<le> length secs" and h0: "hd secs = 0" and so: "sorted secs"
    and la: "last secs \<le> int (length arr)"
  shows "length (sum_sections arr secs) = length secs - 1 \<and>
     (\<forall>i < length secs - 2. sum_sections arr secs ! i = sum_list (segment arr secs i)) \<and>
     sum_sections arr secs ! (length secs - 2) =
        sum_list (drop (nat (secs ! (length secs - 2))) arr) \<and>
     ((\<forall>x \<in> set (drop (nat (last secs)) arr). x = 0) \<longrightarrow>
        (\<forall>i < length secs - 1. sum_sections arr secs ! i = sum_list (segment arr secs i)))"
proof -
  let ?m = "length secs - 2"
  have ne: "secs \<noteq> []" using l2 by auto
  have nth0: "secs ! 0 = 0" using h0 ne by (simp add: hd_conv_nth)
  have mono: "secs ! i \<le> secs ! j" if "i \<le> j" "j < length secs" for i j
    using so that by (rule sorted_nth_mono)
  have nonneg: "0 \<le> secs ! j" if "j < length secs" for j
    using mono [of 0 j] that nth0 by simp
  have "Suc ?m = length secs - 1" using l2 by linarith
  then have lastn: "last secs = secs ! Suc ?m" using last_conv_nth [OF ne] by simp
  have seg: "segment arr secs i = take (nat (secs ! Suc i) - nat (secs ! i)) (drop (nat (secs ! i)) arr)"
    if i: "Suc i < length secs" for i
  proof -
    have "secs ! Suc i \<le> last secs"
      using mono [of "Suc i" "length secs - 1"] i ne by (simp add: last_conv_nth)
    then have n3: "secs ! Suc i \<le> int (length arr)" using la by simp
    have n1: "0 \<le> secs ! i" using i by (intro nonneg) simp
    have n2: "secs ! i \<le> secs ! Suc i" using i by (intro mono) simp_all
    from segment_in_range(1) [OF n1 n2 n3] show ?thesis
      using n1 n2 by (simp add: nat_diff_distrib)
  qed
  have inner: "sum_sections arr secs ! i = sum_list (segment arr secs i)"
    if i: "i < length secs - 2" for i
  proof -
    from i have 1: "i < length secs - 1" "Suc i < length secs - 1" "Suc i < length secs" by simp_all
    show ?thesis
      unfolding sum_sections_nth [OF l2 h0 so la 1(1)] seg [OF 1(3)] using 1(2) by simp
  qed
  have m1: "?m < length secs - 1" "\<not> Suc ?m < length secs - 1" "Suc ?m < length secs"
    using l2 by simp_all
  have lst: "sum_sections arr secs ! ?m = sum_list (drop (nat (secs ! ?m)) arr)"
    unfolding sum_sections_nth [OF l2 h0 so la m1(1)] using m1(2) by simp
  have le: "nat (secs ! ?m) \<le> nat (last secs)"
    unfolding lastn using mono [of ?m "Suc ?m"] m1(3) by simp
  have "drop (nat (secs ! ?m)) arr =
      take (nat (last secs) - nat (secs ! ?m)) (drop (nat (secs ! ?m)) arr) @
      drop (nat (last secs) - nat (secs ! ?m)) (drop (nat (secs ! ?m)) arr)"
    by (rule append_take_drop_id [symmetric])
  also have "\<dots> = segment arr secs ?m @ drop (nat (last secs)) arr"
    unfolding seg [OF m1(3)] lastn [symmetric] using le by simp
  finally have split: "drop (nat (secs ! ?m)) arr =
      segment arr secs ?m @ drop (nat (last secs)) arr" .
  have zeros: "(\<forall>x \<in> set (drop (nat (last secs)) arr). x = 0) \<longrightarrow>
        (\<forall>i < length secs - 1. sum_sections arr secs ! i = sum_list (segment arr secs i))"
  proof
    assume "\<forall>x \<in> set (drop (nat (last secs)) arr). x = 0"
    then have z: "sum_list (drop (nat (last secs)) arr) = 0" by (rule sum_list_all_zero)
    have "sum_list (drop (nat (secs ! ?m)) arr) =
        sum_list (segment arr secs ?m @ drop (nat (last secs)) arr)"
      using split by (rule arg_cong)
    also have "\<dots> = sum_list (segment arr secs ?m) + sum_list (drop (nat (last secs)) arr)"
      by (rule sum_list_append)
    finally have "sum_list (drop (nat (secs ! ?m)) arr) =
        sum_list (segment arr secs ?m) + sum_list (drop (nat (last secs)) arr)" .
    with z lst have lm: "sum_sections arr secs ! ?m = sum_list (segment arr secs ?m)" by simp
    show "\<forall>i < length secs - 1. sum_sections arr secs ! i = sum_list (segment arr secs i)"
    proof (intro allI impI)
      fix i assume "i < length secs - 1"
      then consider "i < length secs - 2" | "i = ?m" by linarith
      then show "sum_sections arr secs ! i = sum_list (segment arr secs i)"
      proof cases
        case 1
        then show ?thesis by (rule inner)
      next
        case 2
        then show ?thesis using lm by simp
      qed
    qed
  qed
  from length_sum_sections inner lst zeros show ?thesis by blast
qed

theorem sum_sections_folds_tail_witness:
  "2 \<le> length [0, 2, 5, 5 :: int] \<and> hd [0, 2, 5, 5 :: int] = 0 \<and> sorted [0, 2, 5, 5 :: int] \<and>
   last [0, 2, 5, 5] \<le> int (length [1, 2, 3, 4, 5, 6, 7 :: complex]) \<and>
   sum_sections [1, 2, 3, 4, 5, 6, 7 :: complex] [0, 2, 5, 5] = [3, 12, 13] \<and>
   sum_sections [1, 2, 3, 4, 5, 6, 7 :: complex] [0, 2, 5, 5] ! 0
     = sum_list (segment [1, 2, 3, 4, 5, 6, 7] [0, 2, 5, 5] 0) \<and>
   sum_sections [1, 2, 3, 4, 5, 6, 7 :: complex] [0, 2, 5, 5] ! 1
     = sum_list (segment [1, 2, 3, 4, 5, 6, 7] [0, 2, 5, 5] 1) \<and>
   sum_sections [1, 2, 3, 4, 5, 6, 7 :: complex] [0, 2, 5, 5] ! 2
     = sum_list (drop 5 [1, 2, 3, 4, 5, 6, 7]) \<and>
   sum_list (segment [1, 2, 3, 4, 5, 6, 7 :: complex] [0, 2, 5, 5] 2) = 0 \<and>
   sum_list (drop (nat (last [0, 2, 5, 5])) [1, 2, 3, 4, 5, 6, 7 :: complex]) = 13 \<and>
   2 \<le> length [0, 1, 3 :: int] \<and> hd [0, 1, 3 :: int] = 0 \<and> sorted [0, 1, 3 :: int] \<and>
   last [0, 1, 3] \<le> int (length [1, 2, 3, 0, 0 :: complex]) \<and>
   list_all (\<lambda>x. x = 0) (drop (nat (last [0, 1, 3])) [1, 2, 3, 0, 0 :: complex]) \<and>
   sum_sections [1, 2, 3, 0, 0 :: complex] [0, 1, 3] = [1, 5] \<and>
   sum_sections [1, 2, 3, 0, 0 :: complex] [0, 1, 3] ! 0
     = sum_list (segment [1, 2, 3, 0, 0] [0, 1, 3] 0) \<and>
   sum_sections [1, 2, 3, 0, 0 :: complex] [0, 1, 3] ! 1
     = sum_list (segment [1, 2, 3, 0, 0] [0, 1, 3] 1)"
proof -
  have h: "2 \<le> length [0, 2, 5, 5 :: int]" "hd [0, 2, 5, 5 :: int] = 0" "sorted [0, 2, 5, 5 :: int]"
    "last [0, 2, 5, 5] \<le> int (length [1, 2, 3, 4, 5, 6, 7 :: complex])"
    by simp_all
  note t = sum_sections_folds_tail [OF h]
  from t have a: "\<forall>i < length [0, 2, 5, 5 :: int] - 2.
      sum_sections [1, 2, 3, 4, 5, 6, 7 :: complex] [0, 2, 5, 5] ! i
        = sum_list (segment [1, 2, 3, 4, 5, 6, 7] [0, 2, 5, 5] i)" by blast
  have a0: "sum_sections [1, 2, 3, 4, 5, 6, 7 :: complex] [0, 2, 5, 5] ! 0
     = sum_list (segment [1, 2, 3, 4, 5, 6, 7] [0, 2, 5, 5] 0)"
    using a [rule_format, of 0] by simp
  have a1: "sum_sections [1, 2, 3, 4, 5, 6, 7 :: complex] [0, 2, 5, 5] ! 1
     = sum_list (segment [1, 2, 3, 4, 5, 6, 7] [0, 2, 5, 5] 1)"
    using a [rule_format, of 1] by simp
  from t have a2': "sum_sections [1, 2, 3, 4, 5, 6, 7 :: complex] [0, 2, 5, 5] ! (length [0, 2, 5, 5 :: int] - 2)
     = sum_list (drop (nat ([0, 2, 5, 5] ! (length [0, 2, 5, 5 :: int] - 2))) [1, 2, 3, 4, 5, 6, 7])"
    by blast
  have e: "length [0, 2, 5, 5 :: int] - 2 = 2" "nat ([0, 2, 5, 5 :: int] ! 2) = 5" by simp_all
  have a2: "sum_sections [1, 2, 3, 4, 5, 6, 7 :: complex] [0, 2, 5, 5] ! 2
     = sum_list (drop 5 [1, 2, 3, 4, 5, 6, 7])"
    using a2' unfolding e .
  have v: "sum_sections [1, 2, 3, 4, 5, 6, 7 :: complex] [0, 2, 5, 5] = [3, 12, 13]"
    by code_simp
  have w: "sum_list (segment [1, 2, 3, 4, 5, 6, 7 :: complex] [0, 2, 5, 5] 2) = 0"
    "sum_list (drop (nat (last [0, 2, 5, 5])) [1, 2, 3, 4, 5, 6, 7 :: complex]) = 13"
    by code_simp+
  have g: "2 \<le> length [0, 1, 3 :: int]" "hd [0, 1, 3 :: int] = 0" "sorted [0, 1, 3 :: int]"
    "last [0, 1, 3] \<le> int (length [1, 2, 3, 0, 0 :: complex])"
    by simp_all
  have z: "\<forall>x \<in> set (drop (nat (last [0, 1, 3])) [1, 2, 3, 0, 0 :: complex]). x = 0"
    by simp
  note t2 = sum_sections_folds_tail [OF g]
  from t2 z have b: "\<forall>i < length [0, 1, 3 :: int] - 1.
      sum_sections [1, 2, 3, 0, 0 :: complex] [0, 1, 3] ! i
        = sum_list (segment [1, 2, 3, 0, 0] [0, 1, 3] i)" by blast
  have b0: "sum_sections [1, 2, 3, 0, 0 :: complex] [0, 1, 3] ! 0
     = sum_list (segment [1, 2, 3, 0, 0] [0, 1, 3] 0)"
    using b [rule_format, of 0] by simp
  have b1: "sum_sections [1, 2, 3, 0, 0 :: complex] [0, 1, 3] ! 1
     = sum_list (segment [1, 2, 3, 0, 0] [0, 1, 3] 1)"
    using b [rule_format, of 1] by simp
  have v2: "sum_sections [1, 2, 3, 0, 0 :: complex] [0, 1, 3] = [1, 5]" by code_simp
  have l: "list_all (\<lambda>x. x = 0) (drop (nat (last [0, 1, 3])) [1, 2, 3, 0, 0 :: complex])"
    by simp
  from h a0 a1 a2 v w g b0 b1 v2 l show ?thesis by blast
qed

text \<open>
  C9 as stated fails in its last clause: here the entries past the final offset are \<open>1\<close>
  and \<open>- 1\<close>, not zero, and the documented sum of the only segment is obtained.
\<close>

theorem sum_sections_only_when_counterexample:
  "sum_sections [5, 1, - 1 :: complex] [0, 1] = [5] \<and>
   sum_list (segment [5, 1, - 1 :: complex] [0, 1] 0) = 5 \<and>
   drop (nat (last [0, 1])) [5, 1, - 1 :: complex] = [1, - 1] \<and>
   (1 :: complex) \<noteq> 0"
proof -
  have "sum_sections [5, 1, - 1 :: complex] [0, 1] = [5]" by code_simp
  moreover have "sum_list (segment [5, 1, - 1 :: complex] [0, 1] 0) = 5" by code_simp
  ultimately show ?thesis by simp
qed

end
